theory Spec2Isabelle
  imports Main "HOL-Library.Word"
begin

section \<open>Python text primitives\<close>

text \<open>
  A Python \<open>str\<close> is modelled as a \<open>string\<close>, its characters read as the code points
  U+0000 to U+00FF. The predicates below follow \<open>str.isdigit\<close>, \<open>str.isspace\<close> and
  \<open>str.isprintable\<close> on that range.
\<close>

definition is_ascii_digit :: "char \<Rightarrow> bool" where
  "is_ascii_digit c = (48 \<le> (of_char c :: nat) \<and> (of_char c :: nat) \<le> 57)"

definition isdigit :: "char \<Rightarrow> bool" where
  \<comment> \<open>\<open>str.isdigit\<close>: the decimal digits, and the superscripts U+00B2, U+00B3, U+00B9.\<close>
  "isdigit c = (is_ascii_digit c \<or> (of_char c :: nat) \<in> set [178, 179, 185])"

definition isspace :: "char \<Rightarrow> bool" where
  "isspace c = (let n = (of_char c :: nat) in
     (9 \<le> n \<and> n \<le> 13) \<or> (28 \<le> n \<and> n \<le> 32) \<or> n = 133 \<or> n = 160)"

definition isprintable :: "char \<Rightarrow> bool" where
  "isprintable c = (let n = (of_char c :: nat) in
     (32 \<le> n \<and> n \<le> 126) \<or> (161 \<le> n \<and> n \<noteq> 173))"

definition is_ascii_upper :: "char \<Rightarrow> bool" where
  "is_ascii_upper c = (65 \<le> (of_char c :: nat) \<and> (of_char c :: nat) \<le> 90)"

definition is_ascii_lower :: "char \<Rightarrow> bool" where
  "is_ascii_lower c = (97 \<le> (of_char c :: nat) \<and> (of_char c :: nat) \<le> 122)"

definition isalpha :: "char \<Rightarrow> bool" where
  \<comment> \<open>\<open>str.isalpha\<close> on ASCII. A letter outside ASCII is sent down the other branch of
      \<open>_map_input_char\<close>; the source rejects it on either branch, since neither the
      character nor its upper-case form is a key of \<open>LETTER_MAP\<close>.\<close>
  "isalpha c = (is_ascii_upper c \<or> is_ascii_lower c)"

definition upper :: "char \<Rightarrow> char" where
  \<comment> \<open>\<open>str.upper\<close> of one ASCII character; it is applied to nothing else, see
      \<open>isalpha\<close>.\<close>
  "upper c = (if is_ascii_lower c then char_of ((of_char c :: nat) - 32) else c)"

definition digit_char :: "nat \<Rightarrow> char" where
  "digit_char d = char_of (48 + d)"

fun dec :: "nat \<Rightarrow> string" where
  "dec n = (if n < 10 then [digit_char n] else dec (n div 10) @ [digit_char (n mod 10)])"

declare dec.simps [simp del]

definition py_str :: "int \<Rightarrow> string" where
  \<comment> \<open>\<open>str(n)\<close> of an integer.\<close>
  "py_str n = (if n < 0 then CHR ''-'' # dec (nat (- n)) else dec (nat n))"

definition fmt_0d :: "nat \<Rightarrow> int \<Rightarrow> string" where
  \<comment> \<open>\<open>f"{n:0wd}"\<close>: zeros between the sign and the digits, up to \<open>w\<close> characters.\<close>
  "fmt_0d w n = (let ds = dec (nat \<bar>n\<bar>) in
     if n < 0 then CHR ''-'' # replicate (w - 1 - length ds) CHR ''0'' @ ds
     else replicate (w - length ds) CHR ''0'' @ ds)"

definition ljust :: "nat \<Rightarrow> string \<Rightarrow> string" where
  "ljust w s = s @ replicate (w - length s) CHR '' ''"

section \<open>The letter sender (fungaz.py)\<close>

definition LETTER_MAP :: "char \<rightharpoonup> char" where
  "LETTER_MAP = map_of
     [(CHR ''A'', CHR ''A''), (CHR ''C'', CHR ''C''), (CHR ''E'', CHR ''E''),
      (CHR ''F'', CHR ''F''), (CHR ''G'', CHR ''G''), (CHR ''H'', CHR ''H''),
      (CHR ''I'', CHR ''I''), (CHR ''J'', CHR ''J''), (CHR ''L'', CHR ''L''),
      (CHR ''P'', CHR ''P''), (CHR ''S'', CHR ''S''), (CHR ''U'', CHR ''U''),
      (CHR ''b'', CHR ''b''), (CHR ''d'', CHR ''d''), (CHR ''o'', CHR ''o''),
      (CHR ''0'', CHR ''0''), (CHR ''1'', CHR ''1''), (CHR ''2'', CHR ''2''),
      (CHR ''3'', CHR ''3''), (CHR ''4'', CHR ''4''), (CHR ''5'', CHR ''5''),
      (CHR ''6'', CHR ''6''), (CHR ''7'', CHR ''7''), (CHR ''8'', CHR ''8''),
      (CHR ''9'', CHR ''9''),
      (CHR ''-'', CHR ''-''), (CHR ''_'', CHR ''_''), (CHR '' '', CHR '' '')]"

definition HEADER :: string where
  "HEADER = ''  0   .     ''"

text \<open>
  The window of \<open>App\<close>: the five \<open>StringVar\<close>s behind the entries \<open>ent_a\<close> to \<open>ent_e\<close>
  and the entry that has the keyboard focus. A widget is named by its position in
  \<open>order = [ent_a, ent_b, ent_c, ent_d, ent_e]\<close>; a number from 5 on is a widget that is
  not one of the five. The two preview labels are not modelled.
\<close>

record letters =
  var_a :: string
  var_b :: string
  var_c :: string
  var_d :: string
  var_e :: string
  focus :: nat

definition var_get :: "nat \<Rightarrow> letters \<Rightarrow> string" where
  \<comment> \<open>\<open>vars_[i].get()\<close>\<close>
  "var_get i s = (if i = 0 then var_a s else if i = 1 then var_b s else if i = 2 then var_c s
     else if i = 3 then var_d s else var_e s)"

definition var_set :: "nat \<Rightarrow> string \<Rightarrow> letters \<Rightarrow> letters" where
  \<comment> \<open>\<open>vars_[i].set(v)\<close>; every call of the source has \<open>i < 5\<close>.\<close>
  "var_set i v s = (if i = 0 then s\<lparr>var_a := v\<rparr> else if i = 1 then s\<lparr>var_b := v\<rparr>
     else if i = 2 then s\<lparr>var_c := v\<rparr> else if i = 3 then s\<lparr>var_d := v\<rparr>
     else if i = 4 then s\<lparr>var_e := v\<rparr> else s)"

definition map_input_char :: "string \<Rightarrow> nat option \<Rightarrow> char option" where
  "map_input_char ch widget =
     (case ch of
        [] \<Rightarrow> Some CHR '' ''
      | s # _ \<Rightarrow>
          (let m = (if isalpha s then
                      (let up = upper s in
                       if up = CHR ''B'' then CHR ''b''
                       else if up = CHR ''D'' then CHR ''d''
                       else if up = CHR ''O'' then CHR ''o''
                       else up)
                    else s)
           in if m = CHR ''-'' \<and> widget = Some 0 then None
              else if m \<in> dom LETTER_MAP then Some m else None))"

definition collect_one :: "string \<Rightarrow> char" where
  \<comment> \<open>the body of the loop of \<open>collect_letters\<close>\<close>
  "collect_one v =
     (let raw = take 1 (if v = [] then '' '' else v) in
      case map_input_char raw None of
        None \<Rightarrow> CHR '' ''
      | Some mapped \<Rightarrow> (case LETTER_MAP mapped of None \<Rightarrow> CHR '' '' | Some g \<Rightarrow> g))"

definition collect_letters :: "letters \<Rightarrow> string" where
  "collect_letters s = map collect_one [var_a s, var_b s, var_c s, var_d s, var_e s]"

definition make_frame :: "string \<Rightarrow> string" where
  \<comment> \<open>\<open>list(letters.ljust(5))[:5]\<close> has five elements whatever \<open>letters\<close> is, so the
      unpacking into \<open>a, b, c, d, e\<close> never fails.\<close>
  "make_frame letters =
     (let l = take 5 (ljust 5 letters);
          a = l ! 0; b = l ! 1; c = l ! 2; d = l ! 3; e = l ! 4;
          content = [a] @ '' '' @ [b] @ [c] @ '' '' @ [d] @ [e] @ '' 00''
      in HEADER @ content)"

definition validate_char :: "string \<Rightarrow> string \<Rightarrow> nat \<Rightarrow> bool" where
  \<comment> \<open>Tk's \<open>validatecommand\<close>: \<open>proposed\<close> is \<open>%P\<close>, \<open>inserted\<close> is \<open>%S\<close>, and the widget
      named by \<open>%W\<close> is searched among the five entries.\<close>
  "validate_char proposed inserted widget_name =
     (if inserted = [] then True
      else if length proposed > 1 then False
      else (let widget = (if widget_name < 5 then Some widget_name else None)
            in map_input_char inserted widget \<noteq> None))"

definition focus_next :: "nat \<Rightarrow> letters \<Rightarrow> letters" where
  "focus_next current s =
     (if 5 \<le> current then s
      else if current < 4 then s\<lparr>focus := current + 1\<rparr> else s)"

definition focus_prev :: "nat \<Rightarrow> letters \<Rightarrow> letters" where
  "focus_prev current s =
     (if 5 \<le> current then s
      else if 0 < current then s\<lparr>focus := current - 1\<rparr> else s)"

definition route_to_next :: "nat \<Rightarrow> string \<Rightarrow> letters \<Rightarrow> letters" where
  "route_to_next current_widget ch s =
     (if 5 \<le> current_widget then s
      else if current_widget < 4 then
        (var_set (current_widget + 1) (take 1 (if ch = [] then '' '' else ch)) s)
          \<lparr>focus := current_widget + 1\<rparr>
      else s)"

text \<open>
  A key event as the handlers read it: \<open>event.keysym\<close>, \<open>event.char\<close>, the entry
  \<open>event.widget\<close> the handler is bound to (whose \<open>StringVar\<close> is the handler's \<open>var\<close>),
  and whether the widget reports a non-empty selection.
\<close>

record key_event =
  ev_keysym :: string
  ev_char :: string
  ev_widget :: nat
  ev_has_sel :: bool

definition auto_advance :: "key_event \<Rightarrow> letters \<Rightarrow> letters" where
  "auto_advance event s =
     (if length (var_get (ev_widget event) s) = 1 \<and> length (ev_char event) = 1
      then focus_next (ev_widget event) s else s)"

definition smart_backspace :: "key_event \<Rightarrow> letters \<Rightarrow> letters" where
  "smart_backspace event s =
     (if ev_keysym event = ''BackSpace'' \<and> var_get (ev_widget event) s = []
      then focus_prev (ev_widget event) s else s)"

definition key_release :: "key_event \<Rightarrow> letters \<Rightarrow> letters" where
  \<comment> \<open>the \<open>KeyRelease\<close> binding: \<open>_auto_advance\<close>, then \<open>_smart_backspace\<close>\<close>
  "key_release event s = smart_backspace event (auto_advance event s)"

definition allowed_keys :: "string list" where
  "allowed_keys = [''BackSpace'', ''Delete'', ''Left'', ''Right'', ''Home'', ''End'', ''Tab'',
     ''Shift_L'', ''Shift_R'', ''Control_L'', ''Control_R'', ''Alt_L'', ''Alt_R'']"

datatype handled = Default | Break

text \<open>
  \<open>_block_extra_key\<close> returns \<open>"break"\<close> (the key goes no further) or nothing (Tk goes on
  to the entry's own binding). The result is that answer, whether the bell rang, and the
  window afterwards.
\<close>

definition block_extra_key :: "key_event \<Rightarrow> letters \<Rightarrow> handled \<times> bool \<times> letters" where
  "block_extra_key event s =
     (let printable1 = (length (ev_char event) = 1 \<and> list_all isprintable (ev_char event));
          mapped = map_input_char (ev_char event) (Some (ev_widget event))
      in if ev_keysym event \<in> set allowed_keys then (Default, False, s)
         else if printable1 \<and> mapped = None then (Break, True, s)
         else if ev_has_sel event then (Default, False, s)
         else if 1 \<le> length (var_get (ev_widget event) s) \<and> printable1 then
           (case mapped of
              None \<Rightarrow> (Break, True, s)
            | Some m \<Rightarrow> (Break, False, route_to_next (ev_widget event) [m] s))
         else (Default, False, s))"

datatype py_error = ValueError

fun paste_loop :: "nat \<Rightarrow> string \<Rightarrow> nat \<Rightarrow> letters \<Rightarrow> nat \<times> letters" where
  "paste_loop w [] i s = (i, s)"
| "paste_loop w (ch # data) i s =
     (case map_input_char [ch] (Some w) of
        None \<Rightarrow> paste_loop w data i s
      | Some mapped \<Rightarrow>
          if 5 \<le> i then (i, s)
          else paste_loop w data (i + 1) (var_set i [mapped] s))"

definition on_paste :: "string \<Rightarrow> nat \<Rightarrow> letters \<Rightarrow> py_error + letters" where
  \<comment> \<open>\<open>data\<close> is the clipboard's text (empty when it cannot be read), \<open>w\<close> is
      \<open>event.widget\<close>. The second \<open>order.index(event.widget)\<close> is not guarded.\<close>
  "on_paste data w s =
     (let i0 = (if w < 5 then w else 0);
          (i, s') = paste_loop w data i0 s
      in if 0 < i then Inr (s'\<lparr>focus := min (i - 1) 4\<rparr>)
         else if w < 5 then Inr (s'\<lparr>focus := w\<rparr>)
         else Inl ValueError)"

text \<open>
  What Tk itself does with a BackSpace that \<open>_block_extra_key\<close> lets through, on an entry
  with no selection and the insertion cursor at \<open>cur\<close>: the character before the cursor
  is removed, if the \<open>validatecommand\<close> agrees (\<open>%S\<close> is then the removed text).
\<close>

definition tk_backspace :: "nat \<Rightarrow> nat \<Rightarrow> letters \<Rightarrow> letters" where
  "tk_backspace w cur s =
     (let txt = var_get w s
      in if cur = 0 \<or> length txt < cur then s
         else (let proposed = take (cur - 1) txt @ drop cur txt;
                   removed = [txt ! (cur - 1)]
               in if validate_char proposed removed w then var_set w proposed s else s))"

definition delete_event :: "nat \<Rightarrow> nat \<Rightarrow> string \<Rightarrow> letters \<Rightarrow> letters" where
  \<comment> \<open>BackSpace pressed and released in entry \<open>w\<close>: the \<open>KeyPress\<close> binding, Tk's own
      binding unless the first one broke, then the \<open>KeyRelease\<close> binding.\<close>
  "delete_event w cur ch s =
     (let event = \<lparr>ev_keysym = ''BackSpace'', ev_char = ch, ev_widget = w, ev_has_sel = False\<rparr>;
          (h, bell, s1) = block_extra_key event s;
          s2 = (if h = Default then tk_backspace w cur s1 else s1)
      in key_release event s2)"

text \<open>
  A key pressed and released in an entry: the \<open>KeyPress\<close> binding, then Tk's own binding
  unless the first one broke, then the \<open>KeyRelease\<close> binding. Tk hands a key release to
  the widget that has the focus at that moment, so after \<open>_route_to_next\<close> has moved the
  focus the release runs in the entry that received it. What Tk's own binding does with a
  key the handler lets through is left open (\<open>tk_default\<close>).
\<close>

definition insert_event :: "(letters \<Rightarrow> letters) \<Rightarrow> key_event \<Rightarrow> letters \<Rightarrow> letters" where
  "insert_event tk_default event s =
     (let (h, bell, s1) = block_extra_key event s;
          s2 = (if h = Default then tk_default s1 else s1)
      in key_release (event\<lparr>ev_widget := focus s2\<rparr>) s2)"

section \<open>The number and time sender (gaz.py)\<close>

definition digit_val :: "char \<Rightarrow> int" where
  "digit_val c = int (of_char c) - 48"

definition py_int :: "string \<Rightarrow> int option" where
  \<comment> \<open>\<open>int(s)\<close> for the strings that reach it, which hold only characters passing
      \<open>isdigit\<close>: a superscript digit, or no character at all, raises ValueError
      (\<open>None\<close>), and so does a string of more than 4300 digits (CPython from 3.11 on).\<close>
  "py_int s = (if s \<noteq> [] \<and> list_all is_ascii_digit s \<and> length s \<le> 4300
               then Some (foldl (\<lambda>acc c. 10 * acc + digit_val c) 0 s) else None)"

definition str_isdigit :: "string \<Rightarrow> bool" where
  "str_isdigit s = (s \<noteq> [] \<and> list_all isdigit s)"

definition strip :: "string \<Rightarrow> string" where
  "strip s = rev (dropWhile isspace (rev (dropWhile isspace s)))"

definition build_number :: "int \<Rightarrow> string" where
  "build_number n = ''A'' @ fmt_0d 3 n @ replicate 8 CHR '' ''"

definition build_time_head :: "int \<Rightarrow> int \<Rightarrow> string" where
  "build_time_head sec cen =
     (let head_lt100 = ''  0   .       '';
          head_ge100 = ''  0   .     ''
      in if sec \<ge> 100 then
           (let H = py_str (sec div 100);
                SS = fmt_0d 2 (sec mod 100);
                body = H @ '' '' @ SS @ ''.'' @ fmt_0d 2 cen @ '' 00''
            in head_ge100 @ body)
         else
           (let sec_str = (if sec < 10 then '' '' @ py_str sec else py_str sec);
                body = sec_str @ ''.'' @ fmt_0d 2 cen @ '' 00''
            in head_lt100 @ body))"

text \<open>
  What the sender does to the world, in order: bytes written to the port, pauses (in
  milliseconds) and message boxes (title and text; the text of a send error is the
  exception's and is left out).
\<close>

datatype io = Write string | Sleep nat | ShowWarning string string | ShowError string

datatype log_line = Sent string | SendError

text \<open>
  The window of the sender: whether a port is open, the two entry fields, the log, and
  the trace of what was done to the world. \<open>writes\<close> counts the calls of \<open>ser.write\<close> so
  far, and \<open>write_fails k\<close> says whether call number \<open>k\<close> raises (it then writes nothing).
\<close>

record gaz =
  ser_open :: bool
  num_var :: string
  time_var :: string
  log :: "log_line list"
  writes :: nat
  write_fails :: "nat \<Rightarrow> bool"
  trace :: "io list"

definition emit :: "io \<Rightarrow> gaz \<Rightarrow> gaz" where
  "emit x s = s\<lparr>trace := trace s @ [x]\<rparr>"

definition is_ascii :: "char \<Rightarrow> bool" where
  "is_ascii c = ((of_char c :: nat) < 128)"

definition send_payload :: "string \<Rightarrow> gaz \<Rightarrow> bool \<times> gaz" where
  \<comment> \<open>\<open>encode("ascii")\<close> raises inside the \<open>try\<close> before anything is written; an exception
      of \<open>flush\<close> is swallowed.\<close>
  "send_payload payload s =
     (if \<not> ser_open s then
        (False, emit (ShowWarning ''Not connected'' ''Connect to port first'') s)
      else if \<not> list_all is_ascii payload then
        (False, (emit (ShowError ''Send error'') s)\<lparr>log := log s @ [SendError]\<rparr>)
      else if write_fails s (writes s) then
        (False, (emit (ShowError ''Send error'') s)
                  \<lparr>log := log s @ [SendError], writes := writes s + 1\<rparr>)
      else
        (True, (emit (Write (payload @ [CHR 0x0D])) s)
                 \<lparr>log := log s @ [Sent payload], writes := writes s + 1\<rparr>))"

definition send_number :: "gaz \<Rightarrow> (py_error + bool) \<times> gaz" where
  "send_number s =
     (let digits = filter isdigit (num_var s);
          raw = (if digits = [] then ''0'' else digits)
      in case py_int raw of
           None \<Rightarrow> (Inl ValueError, s)
         | Some n \<Rightarrow>
             if n < 0 \<or> n > 999 then
               (Inr False, emit (ShowWarning ''Bad number'' ''0..999 allowed'') s)
             else
               (let (ok, s1) = send_payload (build_number n) s
                in if \<not> ok then (Inr False, s1)
                   else
                     (let s2 = emit (Sleep 80) s1;
                          (ok2, s3) = send_payload (replicate 11 CHR '' '') s2;
                          s4 = emit (Sleep 80) s3;
                          (ok3, s5) = send_payload (replicate 15 CHR '' '') s4
                      in (Inr True, s5))))"

definition split_dot :: "string \<Rightarrow> string \<times> string option" where
  \<comment> \<open>\<open>txt.split('.', 1)\<close> when there is a dot, \<open>(txt, None)\<close> otherwise\<close>
  "split_dot txt =
     (if CHR ''.'' \<in> set txt
      then (takeWhile (\<lambda>c. c \<noteq> CHR ''.'') txt, Some (tl (dropWhile (\<lambda>c. c \<noteq> CHR ''.'') txt)))
      else (txt, None))"

definition send_time_checked :: "int \<Rightarrow> int \<Rightarrow> gaz \<Rightarrow> (py_error + bool) \<times> gaz" where
  \<comment> \<open>the end of \<open>send_time\<close>, once \<open>sec\<close> and \<open>cen\<close> are known: the two range checks
      and the send\<close>
  "send_time_checked sec cen s =
     (if \<not> (0 \<le> sec \<and> sec \<le> 999) then
        (Inr False, emit (ShowWarning ''Bad seconds'' ''0..999'') s)
      else if \<not> (0 \<le> cen \<and> cen \<le> 99) then
        (Inr False, emit (ShowWarning ''Bad hundredths'' ''0..99'') s)
      else (let (ok, s1) = send_payload (build_time_head sec cen) s in (Inr ok, s1)))"

definition send_time :: "gaz \<Rightarrow> (py_error + bool) \<times> gaz" where
  "send_time s =
     (let txt = strip (time_var s);
          (left, right) = split_dot txt
      in if \<not> str_isdigit left \<or> length left = 0 \<or> length left > 3 then
           (Inr False,
            emit (ShowWarning ''Bad format'' ''Use SSS.DD, e.g. 6.23, 33 or 123.4'') s)
         else
           (case py_int left of
              None \<Rightarrow> (Inl ValueError, s)
            | Some sec \<Rightarrow>
                if right = None \<or> right = Some [] then send_time_checked sec 0 s
                else
                  (let r = the right
                   in if \<not> str_isdigit r \<or> length r > 2 then
                        (Inr False,
                         emit (ShowWarning ''Bad format'' ''Fraction part max 2 digits'') s)
                      else
                        (case py_int r of
                           None \<Rightarrow> (Inl ValueError, s)
                         | Some v \<Rightarrow>
                             if length r = 1 then send_time_checked sec (v * 10) s
                             else send_time_checked sec v s))))"

section \<open>The sniffer (tdc.py)\<close>

text \<open>
  The rendered line is a Python \<open>str\<close> that can hold U+FFFD, so here a text is the list
  of its code points.
\<close>

type_synonym byte = "8 word"

type_synonym utext = "nat list"

definition ustr :: "string \<Rightarrow> utext" where
  "ustr s = map of_char s"

definition hex_digit :: "nat \<Rightarrow> char" where
  "hex_digit d = (if d < 10 then char_of (48 + d) else char_of (55 + d))"

definition fmt_02X :: "byte \<Rightarrow> string" where
  \<comment> \<open>\<open>f'{b:02X}'\<close> of a byte\<close>
  "fmt_02X b = [hex_digit (unat b div 16), hex_digit (unat b mod 16)]"

fun join :: "'a list \<Rightarrow> 'a list list \<Rightarrow> 'a list" where
  "join sep [] = []"
| "join sep [x] = x"
| "join sep (x # y # ys) = x @ sep @ join sep (y # ys)"

definition decode_ascii_replace :: "byte list \<Rightarrow> utext" where
  \<comment> \<open>\<open>data.decode('ascii', errors='replace')\<close>: a byte below 0x80 is its own code point,
      any other byte becomes U+FFFD. It raises on no input.\<close>
  "decode_ascii_replace data = map (\<lambda>b. if unat b < 128 then unat b else 0xFFFD) data"

definition dotted :: "byte list \<Rightarrow> utext" where
  \<comment> \<open>the expression of the \<open>except\<close> branch, which runs only if the decoding raises\<close>
  "dotted data = map (\<lambda>b. if 32 \<le> unat b \<and> unat b < 127 then unat b else of_char CHR ''.'') data"

definition replace_char :: "nat \<Rightarrow> utext \<Rightarrow> utext \<Rightarrow> utext" where
  \<comment> \<open>\<open>s.replace(c, new)\<close> for a one-character \<open>c\<close>\<close>
  "replace_char c new s = concat (map (\<lambda>x. if x = c then new else [x]) s)"

definition ascii_view :: "byte list \<Rightarrow> utext" where
  \<comment> \<open>code point 34 is the double quote around the text\<close>
  "ascii_view data =
     (let s = decode_ascii_replace data;
          s_vis = replace_char 10 (ustr ''<LF>'') (replace_char 13 (ustr ''<CR>'') s)
      in ustr ''ASCII: '' @ [34] @ s_vis @ [34])"

definition hex_view :: "byte list \<Rightarrow> utext" where
  "hex_view data = ustr (''HEX: '' @ join '' '' (map fmt_02X data))"

definition render :: "bool \<Rightarrow> bool \<Rightarrow> byte list \<Rightarrow> utext option" where
  \<comment> \<open>the line \<open>read_loop\<close> hands to \<open>log_line\<close> for the chunk it read; no line for an
      empty chunk\<close>
  "render show_hex show_ascii data =
     (if data = [] then None
      else Some (join (ustr ''  '')
             ((if show_hex then [hex_view data] else []) @
              (if show_ascii then [ascii_view data] else []))))"

section \<open>Properties\<close>

lemma make_frame_five:
  "make_frame [a, b, c, d, e] = HEADER @ [a] @ '' '' @ [b, c] @ '' '' @ [d, e] @ '' 00''"
  by (simp add: make_frame_def ljust_def)

subsection \<open>Letters frame\<close>

text \<open>
  C1 (amended). For every five glyphs \<open>a, b, c, d, e\<close> (blanks included) the letters
  encoder returns \<open>HEADER @ a @ " " @ b @ c @ " " @ d @ e @ " 00"\<close>. The header literal
  has 12 characters and the content has 10, so every payload has 22 characters; the
  second and the fifth character of the content are spaces whatever the input. The frame
  built from the five entries of the window, whatever they hold, has 22 characters too.
\<close>

theorem C1_make_frame_layout:
  "make_frame [a, b, c, d, e] = HEADER @ [a] @ '' '' @ [b] @ [c] @ '' '' @ [d] @ [e] @ '' 00''
   \<and> HEADER = ''  0   .     '' \<and> length HEADER = 12
   \<and> length (make_frame [a, b, c, d, e]) = 22
   \<and> make_frame [a, b, c, d, e] ! (length HEADER + 1) = CHR '' ''
   \<and> make_frame [a, b, c, d, e] ! (length HEADER + 4) = CHR '' ''
   \<and> length (make_frame (collect_letters s)) = 22"
  by (simp add: make_frame_five HEADER_def collect_letters_def)

theorem C1_make_frame_layout_witness:
  "make_frame ''A 1b '' = ''  0   .     A  1 b  00'' \<and> length (make_frame ''A 1b '') = 22"
  using C1_make_frame_layout [of "CHR ''A''" "CHR '' ''" "CHR ''1''" "CHR ''b''" "CHR '' ''"]
  by (simp add: HEADER_def)

text \<open>
  The header is not 11 characters long and the payload is not 20 characters long.
\<close>

theorem C1_length_counterexample:
  "length HEADER \<noteq> 11 \<and> length (make_frame ''A 1b '') \<noteq> 20"
  by (simp add: make_frame_five HEADER_def)

subsection \<open>Decimal formatting\<close>

lemmas chr_eval = char_of_eq_iff take_bit_eq_mod

lemma dec_small: "n < 10 \<Longrightarrow> dec n = [digit_char n]"
  by (simp add: dec.simps)

lemma dec_two: "10 \<le> n \<Longrightarrow> n < 100 \<Longrightarrow> dec n = [digit_char (n div 10), digit_char (n mod 10)]"
  by (subst dec.simps) (simp add: dec_small)

lemma dec_three:
  "100 \<le> n \<Longrightarrow> n < 1000 \<Longrightarrow>
   dec n = [digit_char (n div 100), digit_char (n div 10 mod 10), digit_char (n mod 10)]"
proof -
  assume a: "100 \<le> n" "n < 1000"
  have "10 \<le> n div 10" "n div 10 < 100" using a by auto
  then have "dec (n div 10) = [digit_char (n div 10 div 10), digit_char (n div 10 mod 10)]"
    by (rule dec_two)
  moreover have "n div 10 div 10 = n div 100" by (simp add: div_mult2_eq)
  ultimately show ?thesis using a by (subst dec.simps) simp
qed

lemma digit_char_0: "digit_char 0 = CHR ''0''"
  by (simp add: digit_char_def chr_eval)

lemma fmt_0d_2:
  assumes "0 \<le> n" "n \<le> 99"
  shows "fmt_0d 2 n = [digit_char (nat n div 10), digit_char (nat n mod 10)]"
proof (cases "n < 10")
  case True
  then have "nat n < 10" by simp
  then show ?thesis using assms by (simp add: fmt_0d_def dec_small digit_char_0)
next
  case False
  then have "10 \<le> nat n" "nat n < 100" using assms by auto
  then show ?thesis using assms by (simp add: fmt_0d_def dec_two)
qed

lemma fmt_0d_3:
  assumes "0 \<le> n" "n \<le> 999"
  shows "fmt_0d 3 n = [digit_char (nat n div 100), digit_char (nat n div 10 mod 10), digit_char (nat n mod 10)]"
proof -
  consider "nat n < 10" | "10 \<le> nat n" "nat n < 100" | "100 \<le> nat n" "nat n < 1000"
    using assms by linarith
  then show ?thesis
  proof cases
    case 1 then show ?thesis using assms by (simp add: fmt_0d_def dec_small digit_char_0 numeral_2_eq_2)
  next
    case 2 
    then have "nat n div 100 = 0" by simp
    then show ?thesis using 2 assms by (simp add: fmt_0d_def dec_two digit_char_0)
  next
    case 3 then show ?thesis using assms by (simp add: fmt_0d_def dec_three)
  qed
qed

subsection \<open>Time frame\<close>

text \<open>
  C2. With hundredths in 0..99: for seconds in 0..99 the time encoder returns the
  14-character header, the seconds in two characters (a space, not a zero, before a
  single digit), a dot, the hundredths as two digits and \<open>" 00"\<close>; for seconds in
  100..999 it returns the 12-character header, the hundreds digit, a space, the
  remainder modulo 100 as two digits, a dot, the hundredths as two digits and \<open>" 00"\<close>.
\<close>

theorem C2_build_time_head:
  assumes "0 \<le> cen" "cen \<le> 99"
  shows "(0 \<le> sec \<and> sec \<le> 99 \<longrightarrow>
           build_time_head sec cen =
             ''  0   .       '' @
             (if sec < 10 then [CHR '' '', digit_char (nat sec)]
              else [digit_char (nat sec div 10), digit_char (nat sec mod 10)]) @
             ''.'' @ [digit_char (nat cen div 10), digit_char (nat cen mod 10)] @ '' 00'')
       \<and> (100 \<le> sec \<and> sec \<le> 999 \<longrightarrow>
           build_time_head sec cen =
             ''  0   .     '' @ [digit_char (nat sec div 100)] @ '' '' @
             [digit_char (nat sec mod 100 div 10), digit_char (nat sec mod 100 mod 10)] @
             ''.'' @ [digit_char (nat cen div 10), digit_char (nat cen mod 10)] @ '' 00'')
       \<and> length ''  0   .       '' = 14 \<and> length ''  0   .     '' = 12"
proof -
  have cen: "fmt_0d 2 cen = [digit_char (nat cen div 10), digit_char (nat cen mod 10)]"
    using assms by (rule fmt_0d_2)
  have lt: "build_time_head sec cen =
             ''  0   .       '' @
             (if sec < 10 then [CHR '' '', digit_char (nat sec)]
              else [digit_char (nat sec div 10), digit_char (nat sec mod 10)]) @
             ''.'' @ [digit_char (nat cen div 10), digit_char (nat cen mod 10)] @ '' 00''"
    if "0 \<le> sec" "sec \<le> 99"
  proof (cases "sec < 10")
    case True
    then have "dec (nat sec) = [digit_char (nat sec)]" using that by (simp add: dec_small)
    then show ?thesis using True that by (simp add: build_time_head_def py_str_def cen)
  next
    case False
    then have "dec (nat sec) = [digit_char (nat sec div 10), digit_char (nat sec mod 10)]"
      using that by (simp add: dec_two)
    then show ?thesis using False that by (simp add: build_time_head_def py_str_def cen)
  qed
  have ge: "build_time_head sec cen =
             ''  0   .     '' @ [digit_char (nat sec div 100)] @ '' '' @
             [digit_char (nat sec mod 100 div 10), digit_char (nat sec mod 100 mod 10)] @
             ''.'' @ [digit_char (nat cen div 10), digit_char (nat cen mod 10)] @ '' 00''"
    if "100 \<le> sec" "sec \<le> 999"
  proof -
    have h: "0 \<le> sec div 100" "sec div 100 < 10" using that by auto
    then have "dec (nat (sec div 100)) = [digit_char (nat (sec div 100))]"
      by (simp add: dec_small)
    moreover have "nat (sec div 100) = nat sec div 100" using that by (simp add: nat_div_distrib)
    moreover have "fmt_0d 2 (sec mod 100) = [digit_char (nat (sec mod 100) div 10), digit_char (nat (sec mod 100) mod 10)]"
      by (rule fmt_0d_2) auto
    moreover have "nat (sec mod 100) = nat sec mod 100" using that by (simp add: nat_mod_distrib)
    ultimately show ?thesis using that h by (simp add: build_time_head_def py_str_def cen)
  qed
  show ?thesis using lt ge by simp
qed

theorem C2_build_time_head_witness:
  "build_time_head 6 23 = ''  0   .        6.23 00''
   \<and> build_time_head 42 5 = ''  0   .       42.05 00''
   \<and> build_time_head 123 7 = ''  0   .     1 23.07 00''"
  using C2_build_time_head [of 23 6] C2_build_time_head [of 5 42] C2_build_time_head [of 7 123]
  by (simp add: digit_char_def chr_eval)

subsection \<open>Start number\<close>

lemma is_ascii_digit_char: "d < 10 \<Longrightarrow> is_ascii (digit_char d)"
  by (simp add: is_ascii_def digit_char_def)

lemma digit_char_eval:
  "digit_char 0 = CHR ''0''" "digit_char 1 = CHR ''1''" "digit_char 2 = CHR ''2''"
  "digit_char 3 = CHR ''3''" "digit_char 4 = CHR ''4''" "digit_char 5 = CHR ''5''"
  "digit_char 6 = CHR ''6''" "digit_char 7 = CHR ''7''" "digit_char 8 = CHR ''8''"
  "digit_char 9 = CHR ''9''" "digit_char (Suc 0) = CHR ''1''"
  by (simp_all add: digit_char_def chr_eval)

lemma replicate_8: "replicate 8 x = [x, x, x, x, x, x, x, x]"
  by (simp add: eval_nat_numeral)

lemma replicate_11: "replicate 11 x = [x, x, x, x, x, x, x, x, x, x, x]"
  by (simp add: eval_nat_numeral)

lemma replicate_15: "replicate 15 x = [x, x, x, x, x, x, x, x, x, x, x, x, x, x, x]"
  by (simp add: eval_nat_numeral)

lemma build_number_digits:
  assumes "0 \<le> n" "n \<le> 999"
  shows "build_number n =
     ''A'' @ [digit_char (nat n div 100), digit_char (nat n div 10 mod 10), digit_char (nat n mod 10)]
       @ ''        ''"
  using assms by (simp add: build_number_def fmt_0d_3 replicate_8)

lemma build_number_ascii:
  assumes "0 \<le> n" "n \<le> 999"
  shows "list_all is_ascii (build_number n)"
proof -
  have "nat n div 100 < 10" using assms by (simp add: less_mult_imp_div_less)
  then show ?thesis
    using assms by (simp add: build_number_digits is_ascii_digit_char) (simp add: is_ascii_def)
qed

lemma spaces_ascii: "list_all is_ascii (replicate k CHR '' '')"
  by (induction k) (simp_all add: is_ascii_def)

lemma send_payload_open:
  assumes "ser_open s" "list_all is_ascii p"
  shows "send_payload p s =
     (if write_fails s (writes s)
      then (False, s\<lparr>trace := trace s @ [ShowError ''Send error''],
                      log := log s @ [SendError], writes := writes s + 1\<rparr>)
      else (True, s\<lparr>trace := trace s @ [Write (p @ [CHR 0x0D])],
                     log := log s @ [Sent p], writes := writes s + 1\<rparr>))"
  using assms by (simp add: send_payload_def emit_def)

text \<open>
  C3. For every \<open>n\<close> in 0..999 read from the number field, with a port open: the first
  payload is \<open>"A"\<close>, \<open>n\<close> as three digits and 8 spaces; once it has been written, the
  operation goes on with a pause of 80 ms, a frame of 11 spaces, a pause of 80 ms and a
  frame of 15 spaces, each its own write ending in CR, in that order. A write of the
  second or the third frame that fails is reported and changes nothing of what was sent
  before it, and the frame after it is still sent.
\<close>

theorem C3_send_number:
  assumes "ser_open s"
    and "py_int (if filter isdigit (num_var s) = [] then ''0'' else filter isdigit (num_var s)) = Some n"
    and "0 \<le> n" and "n \<le> 999"
    and "\<not> write_fails s (writes s)"
  shows "build_number n =
           ''A'' @ [digit_char (nat n div 100), digit_char (nat n div 10 mod 10),
                    digit_char (nat n mod 10)] @ ''        ''
       \<and> fst (send_number s) = Inr True
       \<and> trace (snd (send_number s)) =
           trace s @
           [Write (build_number n @ [CHR 0x0D]),
            Sleep 80,
            (if write_fails s (writes s + 1) then ShowError ''Send error''
             else Write (''           '' @ [CHR 0x0D])),
            Sleep 80,
            (if write_fails s (writes s + 2) then ShowError ''Send error''
             else Write (''               '' @ [CHR 0x0D]))]"
proof -
  let ?f1 = "build_number n"
  have a1: "list_all is_ascii ?f1" using assms(3,4) by (rule build_number_ascii)
  have r11: "replicate 11 CHR '' '' = ''           ''" by (simp add: replicate_11)
  have r15: "replicate 15 CHR '' '' = ''               ''" by (simp add: replicate_15)
  obtain s1 where s1: "send_payload ?f1 s = (True, s1)"
    and s1d: "s1 = s\<lparr>trace := trace s @ [Write (?f1 @ [CHR 0x0D])],
                     log := log s @ [Sent ?f1], writes := writes s + 1\<rparr>"
    using assms(1,5) a1 by (simp add: send_payload_open)
  define s2 where "s2 = emit (Sleep 80) s1"
  have o2: "ser_open s2" "writes s2 = writes s + 1" "write_fails s2 = write_fails s"
    "trace s2 = trace s @ [Write (?f1 @ [CHR 0x0D]), Sleep 80]"
    using assms(1) by (simp_all add: s2_def s1d emit_def)
  obtain ok2 s3 where s3: "send_payload (replicate 11 CHR '' '') s2 = (ok2, s3)"
    by (cases "send_payload (replicate 11 CHR '' '') s2")
  have o3: "ser_open s3" "writes s3 = writes s + 2" "write_fails s3 = write_fails s"
    "trace s3 = trace s @ [Write (?f1 @ [CHR 0x0D]), Sleep 80,
        (if write_fails s (writes s + 1) then ShowError ''Send error''
         else Write (''           '' @ [CHR 0x0D]))]"
    using s3 o2 spaces_ascii [of 11]
    by (auto simp add: send_payload_open r11 split: if_splits)
  define s4 where "s4 = emit (Sleep 80) s3"
  have o4: "ser_open s4" "writes s4 = writes s + 2" "write_fails s4 = write_fails s"
    "trace s4 = trace s3 @ [Sleep 80]"
    using o3 by (simp_all add: s4_def emit_def)
  obtain ok3 s5 where s5: "send_payload (replicate 15 CHR '' '') s4 = (ok3, s5)"
    by (cases "send_payload (replicate 15 CHR '' '') s4")
  have o5: "trace s5 = trace s4 @
        [if write_fails s (writes s + 2) then ShowError ''Send error''
         else Write (''               '' @ [CHR 0x0D])]"
    using s5 o4 spaces_ascii [of 15]
    by (auto simp add: send_payload_open r15 split: if_splits)
  have run: "send_number s = (Inr True, s5)"
    using assms(2,3,4) s1 s3 s5
    by (simp add: send_number_def Let_def s2_def s4_def)
  show ?thesis
    using run o5 o4 o3 build_number_digits [OF assms(3,4)] by simp
qed

theorem C3_send_number_witness:
  "fst (send_number \<lparr>ser_open = True, num_var = ''7'', time_var = [], log = [], writes = 0,
     write_fails = (\<lambda>k. k = 1), trace = []\<rparr>) = Inr True
   \<and> trace (snd (send_number \<lparr>ser_open = True, num_var = ''7'', time_var = [], log = [],
     writes = 0, write_fails = (\<lambda>k. k = 1), trace = []\<rparr>)) =
       [Write (''A007        '' @ [CHR 0x0D]), Sleep 80,
        ShowError ''Send error'', Sleep 80,
        Write (''               '' @ [CHR 0x0D])]"
proof -
  let ?s = "\<lparr>ser_open = True, num_var = ''7'', time_var = [], log = [], writes = 0,
     write_fails = (\<lambda>k. k = 1), trace = []\<rparr>"
  have h1: "ser_open ?s" by simp
  have h2: "py_int (if filter isdigit (num_var ?s) = [] then ''0''
                    else filter isdigit (num_var ?s)) = Some 7"
    by (simp add: py_int_def isdigit_def is_ascii_digit_def digit_val_def)
  have h5: "\<not> write_fails ?s (writes ?s)" by simp
  have b: "build_number 7 = ''A007        ''"
    by (simp add: build_number_digits digit_char_eval)
  show ?thesis
    using C3_send_number [OF h1 h2 _ _ h5] by (simp add: b digit_char_eval)
qed

subsection \<open>Reading the time field\<close>

lemma ascii_digit_facts:
  assumes "is_ascii_digit c"
  shows "isdigit c" "\<not> isspace c" "c \<noteq> CHR ''.''" "is_ascii c"
    "0 \<le> digit_val c" "digit_val c \<le> 9" "digit_char (nat (digit_val c)) = c"
proof -
  have r: "48 \<le> (of_char c :: nat)" "(of_char c :: nat) \<le> 57"
    using assms by (simp_all add: is_ascii_digit_def)
  show "isdigit c" using assms by (simp add: isdigit_def)
  show "\<not> isspace c" using r by (simp add: isspace_def Let_def)
  show "c \<noteq> CHR ''.''" using r by auto
  show "is_ascii c" using r by (simp add: is_ascii_def)
  show "0 \<le> digit_val c" "digit_val c \<le> 9" using r by (simp_all add: digit_val_def)
  have "nat (digit_val c) = of_char c - 48" using r by (simp add: digit_val_def)
  then show "digit_char (nat (digit_val c)) = c" using r by (simp add: digit_char_def)
qed

lemma split_dot_cases:
  assumes "split_dot t = (left, right)"
  shows "(right = None \<and> left = t \<and> CHR ''.'' \<notin> set t)
       \<or> (\<exists>r. right = Some r \<and> t = left @ CHR ''.'' # r \<and> CHR ''.'' \<notin> set left)"
proof (cases "CHR ''.'' \<in> set t")
  case False
  then show ?thesis using assms by (simp add: split_dot_def)
next
  case True
  let ?P = "\<lambda>c. c \<noteq> CHR ''.''"
  have l: "left = takeWhile ?P t" and r: "right = Some (tl (dropWhile ?P t))"
    using True assms by (simp_all add: split_dot_def)
  have ne: "dropWhile ?P t \<noteq> []" using True by (simp add: dropWhile_eq_Nil_conv)
  then have "hd (dropWhile ?P t) = CHR ''.''" using hd_dropWhile [of ?P t] by simp
  then have "dropWhile ?P t = CHR ''.'' # tl (dropWhile ?P t)" using ne
    by (metis list.collapse)
  then have "t = left @ CHR ''.'' # tl (dropWhile ?P t)"
    using takeWhile_dropWhile_id [of ?P t] l by metis
  moreover have "CHR ''.'' \<notin> set left" unfolding l by (auto dest: set_takeWhileD)
  ultimately show ?thesis using r by blast
qed

lemma split_dot_append:
  assumes "CHR ''.'' \<notin> set left"
  shows "split_dot (left @ CHR ''.'' # r) = (left, Some r)"
proof -
  have "takeWhile (\<lambda>c. c \<noteq> CHR ''.'') (left @ CHR ''.'' # r) = left"
    using assms by (subst takeWhile_append2) auto
  moreover have "dropWhile (\<lambda>c. c \<noteq> CHR ''.'') (left @ CHR ''.'' # r) = CHR ''.'' # r"
    using assms by (subst dropWhile_append2) auto
  ultimately show ?thesis by (simp add: split_dot_def)
qed

lemma strip_id:
  assumes "s \<noteq> []" "\<not> isspace (hd s)" "\<not> isspace (last s)"
  shows "strip s = s"
proof -
  have "dropWhile isspace s = s" using assms by (cases s) simp_all
  moreover have "dropWhile isspace (rev s) = rev s"
    using assms by (cases "rev s") (simp_all add: last_rev [symmetric] hd_rev)
  ultimately show ?thesis by (simp add: strip_def)
qed

lemma digits_value_bound:
  assumes "list_all is_ascii_digit l" "0 \<le> a"
  shows "0 \<le> foldl (\<lambda>acc c. 10 * acc + digit_val c) a l
       \<and> foldl (\<lambda>acc c. 10 * acc + digit_val c) a l < (a + 1) * 10 ^ length l"
  using assms
proof (induction l arbitrary: a)
  case Nil
  then show ?case by simp
next
  case (Cons c l)
  have d: "0 \<le> digit_val c" "digit_val c \<le> 9" using Cons.prems by (simp_all add: ascii_digit_facts)
  let ?b = "10 * a + digit_val c"
  have b0: "0 \<le> ?b" using d Cons.prems by simp
  have ih: "0 \<le> foldl (\<lambda>acc c. 10 * acc + digit_val c) ?b l"
    "foldl (\<lambda>acc c. 10 * acc + digit_val c) ?b l < (?b + 1) * 10 ^ length l"
    using Cons.IH [of ?b] Cons.prems b0 by simp_all
  have "(?b + 1) * 10 ^ length l \<le> (10 * a + 10) * 10 ^ length l"
    using d by (intro mult_right_mono) simp_all
  also have "\<dots> = (a + 1) * 10 ^ length (c # l)" by (simp add: algebra_simps)
  finally have le: "(?b + 1) * 10 ^ length l \<le> (a + 1) * 10 ^ length (c # l)" .
  have "foldl (\<lambda>acc c. 10 * acc + digit_val c) ?b l < (a + 1) * 10 ^ length (c # l)"
    using ih(2) le by (rule less_le_trans)
  then show ?case using ih(1) by simp
qed

lemma py_int_range:
  assumes "py_int l = Some v" "length l \<le> 3"
  shows "0 \<le> v" "v \<le> 999" "list_all is_ascii_digit l" "l \<noteq> []"
proof -
  show dl: "list_all is_ascii_digit l" and "l \<noteq> []"
    using assms(1) by (simp_all add: py_int_def split: if_splits)
  have v: "v = foldl (\<lambda>acc c. 10 * acc + digit_val c) 0 l"
    using assms(1) by (simp add: py_int_def split: if_splits)
  have b: "0 \<le> v \<and> v < (0 + 1) * 10 ^ length l"
    unfolding v using dl by (intro digits_value_bound) simp_all
  have "(10::int) ^ length l \<le> 10 ^ 3" using assms(2) by (intro power_increasing) simp_all
  then show "0 \<le> v" "v \<le> 999" using b by simp_all
qed

lemma py_int_digits:
  assumes "list_all is_ascii_digit l" "l \<noteq> []"
  shows "str_isdigit l"
  using assms
  by (simp add: str_isdigit_def list_all_iff ascii_digit_facts(1))

lemma py_int_one: "is_ascii_digit d \<Longrightarrow> py_int [d] = Some (digit_val d)"
  by (simp add: py_int_def)

lemma py_int_two:
  "is_ascii_digit d1 \<Longrightarrow> is_ascii_digit d2 \<Longrightarrow> py_int [d1, d2] = Some (digit_val d1 * 10 + digit_val d2)"
  by (simp add: py_int_def)

lemma send_time_wellformed:
  assumes tv: "time_var s = left @ ''.'' @ frac"
    and l: "left \<noteq> []" "length left \<le> 3" "list_all is_ascii_digit left"
    and f: "list_all is_ascii_digit frac"
    and sec: "py_int left = Some sec"
  shows "strip (time_var s) = time_var s" "split_dot (time_var s) = (left, Some frac)"
    "str_isdigit left" "0 \<le> sec" "sec \<le> 999"
proof -
  have hd: "\<not> isspace (hd (time_var s))"
    using l by (cases left) (simp_all add: tv ascii_digit_facts)
  have nsp: "\<not> isspace CHR ''.''" by (simp add: isspace_def)
  have "\<not> isspace (last (time_var s))"
  proof (cases "frac = []")
    case True then show ?thesis using nsp by (simp add: tv)
  next
    case False
    then have "is_ascii_digit (last frac)" using f by (simp add: list_all_iff)
    then show ?thesis using False by (simp add: tv ascii_digit_facts)
  qed
  then show "strip (time_var s) = time_var s" using hd by (intro strip_id) (simp_all add: tv)
  have "CHR ''.'' \<notin> set left" using l(3) ascii_digit_facts(3) by (auto simp add: list_all_iff)
  then show "split_dot (time_var s) = (left, Some frac)"
    using split_dot_append [of left frac] by (simp add: tv)
  show "str_isdigit left" using l by (simp add: py_int_digits)
  show "0 \<le> sec" "sec \<le> 999" using py_int_range [OF sec l(2)] by simp_all
qed

text \<open>
  C4. For a time field of one to three digits, a dot and a fraction: a fraction of exactly
  one digit \<open>d\<close> is encoded as the hundredths \<open>d * 10\<close>, written in the frame as \<open>d\<close>
  followed by \<open>0\<close>; a fraction of exactly two digits is taken as it stands. The digit
  is shifted, nothing is rounded.
\<close>

theorem C4_fraction_scaling:
  assumes "time_var s = left @ ''.'' @ frac"
    and "left \<noteq> []" and "length left \<le> 3" and "list_all is_ascii_digit left"
    and "list_all is_ascii_digit frac"
    and "py_int left = Some sec"
  shows "(frac = [d] \<longrightarrow>
            send_time s =
              (let (ok, s1) = send_payload (build_time_head sec (digit_val d * 10)) s
               in (Inr ok, s1))
          \<and> fmt_0d 2 (digit_val d * 10) = [d, CHR ''0''])
       \<and> (frac = [d1, d2] \<longrightarrow>
            send_time s =
              (let (ok, s1) = send_payload (build_time_head sec (digit_val d1 * 10 + digit_val d2)) s
               in (Inr ok, s1))
          \<and> fmt_0d 2 (digit_val d1 * 10 + digit_val d2) = [d1, d2])"
proof -
  note wf = send_time_wellformed [OF assms]
  have one: "send_time s =
              (let (ok, s1) = send_payload (build_time_head sec (digit_val d * 10)) s
               in (Inr ok, s1))
          \<and> fmt_0d 2 (digit_val d * 10) = [d, CHR ''0'']" if fr: "frac = [d]"
  proof -
    have dd: "is_ascii_digit d" using assms(5) fr by simp
    note df = ascii_digit_facts [OF dd]
    have c: "0 \<le> digit_val d * 10" "digit_val d * 10 \<le> 99" using df by simp_all
    have "send_time s = send_time_checked sec (digit_val d * 10) s"
      using wf assms(3,6) dd fr
      by (simp add: send_time_def py_int_one str_isdigit_def df(1))
    then have run: "send_time s =
              (let (ok, s1) = send_payload (build_time_head sec (digit_val d * 10)) s
               in (Inr ok, s1))"
      using wf(4,5) c by (simp add: send_time_checked_def)
    have "nat (digit_val d * 10) div 10 = nat (digit_val d)" "nat (digit_val d * 10) mod 10 = 0"
      using df(5) by (simp_all add: nat_mult_distrib)
    then have "fmt_0d 2 (digit_val d * 10) = [d, CHR ''0'']"
      using fmt_0d_2 [OF c] df(7) by (simp add: digit_char_0)
    then show ?thesis using run by simp
  qed
  have two: "send_time s =
              (let (ok, s1) = send_payload (build_time_head sec (digit_val d1 * 10 + digit_val d2)) s
               in (Inr ok, s1))
          \<and> fmt_0d 2 (digit_val d1 * 10 + digit_val d2) = [d1, d2]" if fr: "frac = [d1, d2]"
  proof -
    have dd: "is_ascii_digit d1" "is_ascii_digit d2" using assms(5) fr by simp_all
    note df1 = ascii_digit_facts [OF dd(1)]
    note df2 = ascii_digit_facts [OF dd(2)]
    let ?c = "digit_val d1 * 10 + digit_val d2"
    have c: "0 \<le> ?c" "?c \<le> 99" using df1 df2 by simp_all
    have "send_time s = send_time_checked sec ?c s"
      using wf assms(3,6) dd fr
      by (simp add: send_time_def py_int_two str_isdigit_def df1(1) df2(1))
    then have run: "send_time s =
              (let (ok, s1) = send_payload (build_time_head sec ?c) s in (Inr ok, s1))"
      using wf(4,5) c by (simp add: send_time_checked_def)
    have n: "nat ?c = nat (digit_val d1) * 10 + nat (digit_val d2)"
      using df1(5) df2(5) by (simp add: nat_add_distrib nat_mult_distrib)
    have "nat (digit_val d2) < 10" using df2(6) by simp
    then have "nat ?c div 10 = nat (digit_val d1)" "nat ?c mod 10 = nat (digit_val d2)"
      unfolding n by simp_all
    then have "fmt_0d 2 ?c = [d1, d2]"
      using fmt_0d_2 [OF c] df1(7) df2(7) by simp
    then show ?thesis using run by simp
  qed
  show ?thesis using one two by blast
qed

theorem C4_fraction_scaling_witness:
  "send_time \<lparr>ser_open = True, num_var = [], time_var = ''6.2'', log = [], writes = 0,
       write_fails = (\<lambda>k. False), trace = []\<rparr> =
     (Inr True,
      \<lparr>ser_open = True, num_var = [], time_var = ''6.2'',
         log = [Sent ''  0   .        6.20 00''], writes = 1,
         write_fails = (\<lambda>k. False), trace = [Write (''  0   .        6.20 00'' @ [CHR 0x0D])]\<rparr>)
   \<and> fmt_0d 2 (digit_val CHR ''2'' * 10) = ''20''
   \<and> fmt_0d 2 (digit_val CHR ''2'' * 10 + digit_val CHR ''3'') = ''23''"
proof -
  let ?s = "\<lparr>ser_open = True, num_var = [], time_var = ''6.2'', log = [], writes = 0,
       write_fails = (\<lambda>k. False), trace = []\<rparr>"
  let ?t = "\<lparr>ser_open = True, num_var = [], time_var = ''6.23'', log = [], writes = 0,
       write_fails = (\<lambda>k. False), trace = []\<rparr>"
  have h1: "time_var ?s = ''6'' @ ''.'' @ ''2''" by simp
  have k1: "time_var ?t = ''6'' @ ''.'' @ ''23''" by simp
  have h2: "''6'' \<noteq> []" "length ''6'' \<le> 3" by simp_all
  have h4: "list_all is_ascii_digit ''6''" "list_all is_ascii_digit ''2''"
    "list_all is_ascii_digit ''23''"
    by (simp_all add: is_ascii_digit_def)
  have h6: "py_int ''6'' = Some 6" by (simp add: py_int_def is_ascii_digit_def digit_val_def)
  have dv: "digit_val CHR ''2'' * 10 = 20" by (simp add: digit_val_def)
  have b: "build_time_head 6 20 = ''  0   .        6.20 00''"
    by (simp add: build_time_head_def py_str_def dec_small fmt_0d_2 digit_char_eval)
  have sp: "send_payload ''  0   .        6.20 00'' ?s =
     (True, \<lparr>ser_open = True, num_var = [], time_var = ''6.2'',
         log = [Sent ''  0   .        6.20 00''], writes = 1,
         write_fails = (\<lambda>k. False), trace = [Write (''  0   .        6.20 00'' @ [CHR 0x0D])]\<rparr>)"
    by (simp add: send_payload_def emit_def is_ascii_def)
  show ?thesis
    using C4_fraction_scaling [OF h1 h2 h4(1) h4(2) h6, of "CHR ''2''" "CHR ''2''" "CHR ''3''"]
      C4_fraction_scaling [OF k1 h2 h4(1) h4(3) h6, of "CHR ''2''" "CHR ''2''" "CHR ''3''"]
    by (simp add: dv b sp)
qed

subsection \<open>Rejected input\<close>

lemma takeWhile_digits_all:
  assumes "list_all is_ascii_digit l"
  shows "takeWhile is_ascii_digit l = l" "dropWhile is_ascii_digit l = []"
    "takeWhile is_ascii_digit (l @ CHR ''.'' # r) = l"
    "dropWhile is_ascii_digit (l @ CHR ''.'' # r) = CHR ''.'' # r"
proof -
  have a: "\<And>x. x \<in> set l \<Longrightarrow> is_ascii_digit x" using assms by (simp add: list_all_iff)
  have nd: "\<not> is_ascii_digit CHR ''.''" by (simp add: is_ascii_digit_def)
  show "takeWhile is_ascii_digit l = l" using a by (simp add: takeWhile_eq_all_conv)
  show "dropWhile is_ascii_digit l = []" using a by (simp add: dropWhile_eq_Nil_conv)
  show "takeWhile is_ascii_digit (l @ CHR ''.'' # r) = l"
    using a nd by (subst takeWhile_append2) auto
  show "dropWhile is_ascii_digit (l @ CHR ''.'' # r) = CHR ''.'' # r"
    using a nd by (subst dropWhile_append2) auto
qed

lemma py_int_None_iff:
  "py_int l = None \<longleftrightarrow> l = [] \<or> \<not> list_all is_ascii_digit l \<or> 4300 < length l"
  by (auto simp add: py_int_def)

lemma send_payload_num_var:
  "send_payload p (s\<lparr>num_var := v\<rparr>) =
     (fst (send_payload p s), (snd (send_payload p s))\<lparr>num_var := v\<rparr>)"
  by (simp add: send_payload_def emit_def)

lemma emit_num_var: "emit x (s\<lparr>num_var := v\<rparr>) = (emit x s)\<lparr>num_var := v\<rparr>"
  by (simp add: emit_def)

lemma set_strip: "set (strip x) \<subseteq> set x"
proof -
  have "set (strip x) \<subseteq> set (dropWhile isspace x)"
    unfolding strip_def using set_dropWhileD [of _ isspace "rev (dropWhile isspace x)"] by auto
  moreover have "set (dropWhile isspace x) \<subseteq> set x"
    using set_dropWhileD [of _ isspace x] by auto
  ultimately show ?thesis by blast
qed

lemma plain_digits:
  assumes "list_all is_ascii_digit (filter isdigit x)" "set l \<subseteq> set x" "list_all isdigit l"
  shows "list_all is_ascii_digit l"
  using assms by (auto simp add: list_all_iff)

lemma py_int_Some:
  assumes "list_all is_ascii_digit l" "l \<noteq> []" "length l \<le> 4300"
  shows "py_int l = Some (foldl (\<lambda>acc c. 10 * acc + digit_val c) 0 l)"
  using assms by (simp add: py_int_def)

lemma send_time_refuses:
  assumes plain: "list_all is_ascii_digit (filter isdigit (time_var s))"
    and bad: "\<not> (let t = strip (time_var s);
                      l = takeWhile is_ascii_digit t;
                      r = dropWhile is_ascii_digit t
                  in 1 \<le> length l \<and> length l \<le> 3 \<and>
                     (r = [] \<or> (hd r = CHR ''.'' \<and> length (tl r) \<le> 2 \<and>
                                 list_all is_ascii_digit (tl r))))"
  shows "fst (send_time s) = Inr False
       \<and> (snd (send_time s) =
               s\<lparr>trace := trace s @ [ShowWarning ''Bad format'' ''Use SSS.DD, e.g. 6.23, 33 or 123.4'']\<rparr>
          \<or> snd (send_time s) =
               s\<lparr>trace := trace s @ [ShowWarning ''Bad format'' ''Fraction part max 2 digits'']\<rparr>)"
proof -
  let ?t = "strip (time_var s)"
  obtain left right where sd: "split_dot ?t = (left, right)" by (cases "split_dot ?t")
  have sub: "set ?t \<subseteq> set (time_var s)" by (rule set_strip)
  show ?thesis
  proof (cases "\<not> str_isdigit left \<or> length left = 0 \<or> length left > 3")
    case True
    then show ?thesis using sd by (simp add: send_time_def emit_def)
  next
    case ok: False
    then have il: "list_all isdigit left" "left \<noteq> []" "length left \<le> 3"
      by (simp_all add: str_isdigit_def)
    have "set left \<subseteq> set ?t" using split_dot_cases [OF sd] by auto
    then have dl: "list_all is_ascii_digit left"
      using plain_digits [OF plain _ il(1)] sub by blast
    then obtain sec where sec: "py_int left = Some sec"
      using il by (simp add: py_int_Some)
    have len: "1 \<le> length left" "length left \<le> 3" using il by (simp_all add: Suc_le_eq)
    from split_dot_cases [OF sd] obtain r where
      r: "right = Some r" "?t = left @ CHR ''.'' # r"
    proof
      assume "right = None \<and> left = ?t \<and> CHR ''.'' \<notin> set ?t"
      then have "takeWhile is_ascii_digit ?t = left" "dropWhile is_ascii_digit ?t = []"
        using takeWhile_digits_all(1,2) [OF dl] by simp_all
      then have False using bad len by (simp add: Let_def)
      then show thesis ..
    next
      assume "\<exists>r. right = Some r \<and> ?t = left @ CHR ''.'' # r \<and> CHR ''.'' \<notin> set left"
      then show thesis using that by blast
    qed
    have tw: "takeWhile is_ascii_digit ?t = left" "dropWhile is_ascii_digit ?t = CHR ''.'' # r"
      using takeWhile_digits_all(3,4) [OF dl] r(2) by simp_all
    have nr: "\<not> (length r \<le> 2 \<and> list_all is_ascii_digit r)"
      using bad len tw by (simp add: Let_def)
    then have rne: "r \<noteq> []" by auto
    have "\<not> str_isdigit r \<or> length r > 2"
    proof (rule ccontr)
      assume "\<not> (\<not> str_isdigit r \<or> length r > 2)"
      then have ir: "list_all isdigit r" "length r \<le> 2" by (simp_all add: str_isdigit_def)
      have "set r \<subseteq> set ?t" using r(2) by auto
      then have "list_all is_ascii_digit r" using plain_digits [OF plain _ ir(1)] sub by blast
      then show False using nr ir(2) by simp
    qed
    then show ?thesis using sd ok sec r(1) rne by (simp add: send_time_def emit_def)
  qed
qed

lemma digits_value_lower:
  assumes "list_all is_ascii_digit l" "0 \<le> a"
  shows "a * 10 ^ length l \<le> foldl (\<lambda>acc c. 10 * acc + digit_val c) a l"
  using assms
proof (induction l arbitrary: a)
  case Nil
  then show ?case by simp
next
  case (Cons c l)
  have d: "0 \<le> digit_val c" using Cons.prems by (simp add: ascii_digit_facts)
  let ?b = "10 * a + digit_val c"
  have ih: "?b * 10 ^ length l \<le> foldl (\<lambda>acc c. 10 * acc + digit_val c) ?b l"
    using Cons.IH [of ?b] Cons.prems d by simp
  have "(10 * a) * 10 ^ length l \<le> ?b * 10 ^ length l"
    using d by (intro mult_right_mono) simp_all
  then have "a * 10 ^ length (c # l) \<le> ?b * 10 ^ length l"
    by (simp add: algebra_simps)
  then have "a * 10 ^ length (c # l) \<le> foldl (\<lambda>acc c. 10 * acc + digit_val c) ?b l"
    using ih by (rule order_trans)
  then show ?case by simp
qed

lemma zeros_value:
  assumes "list_all (\<lambda>c. c = CHR ''0'') z"
  shows "foldl (\<lambda>acc c. 10 * acc + digit_val c) 0 z = 0"
  using assms by (induction z) (simp_all add: digit_val_def)

lemma long_number_value:
  assumes dl: "list_all is_ascii_digit ds"
    and long: "3 < length (dropWhile (\<lambda>c. c = CHR ''0'') ds)"
  shows "999 < foldl (\<lambda>acc c. 10 * acc + digit_val c) 0 ds"
proof -
  let ?P = "\<lambda>c. c = CHR ''0''"
  let ?f = "\<lambda>acc c. 10 * acc + digit_val c"
  obtain d r where dr: "dropWhile ?P ds = d # r" using long by (cases "dropWhile ?P ds") auto
  have dn: "d \<noteq> CHR ''0''" using hd_dropWhile [of ?P ds] dr by auto
  have sub: "set (d # r) \<subseteq> set ds" using set_dropWhileD [of _ ?P ds] dr by auto
  then have dd: "is_ascii_digit d" and rd: "list_all is_ascii_digit r"
    using dl by (auto simp add: list_all_iff)
  have d1: "1 \<le> digit_val d"
  proof -
    have "(of_char CHR ''0'' :: nat) = 48" by simp
    then have "(of_char d :: nat) \<noteq> 48" using dn by (metis of_char_eq_iff)
    then show ?thesis using dd unfolding is_ascii_digit_def digit_val_def by linarith
  qed
  have z: "list_all ?P (takeWhile ?P ds)" by (simp add: list_all_iff) (auto dest: set_takeWhileD)
  have "ds = takeWhile ?P ds @ d # r" using takeWhile_dropWhile_id [of ?P ds] dr by simp
  then have "foldl ?f 0 ds = foldl ?f (foldl ?f 0 (takeWhile ?P ds)) (d # r)"
    by (metis foldl_append)
  then have v: "foldl ?f 0 ds = foldl ?f (digit_val d) r"
    using zeros_value [OF z] by simp
  have "digit_val d * 10 ^ length r \<le> foldl ?f (digit_val d) r"
    using digits_value_lower [OF rd] d1 by simp
  moreover have "(1::int) * 10 ^ 3 \<le> digit_val d * 10 ^ length r"
  proof -
    have "3 \<le> length r" using long dr by simp
    then have "(10::int) ^ 3 \<le> 10 ^ length r" by (intro power_increasing) simp_all
    then show ?thesis using d1 by (intro mult_mono) simp_all
  qed
  ultimately show ?thesis using v by simp
qed

lemma send_number_same_raw:
  assumes "(if filter isdigit v = [] then ''0'' else filter isdigit v) =
           (if filter isdigit v' = [] then ''0'' else filter isdigit v')"
  shows "send_number (s\<lparr>num_var := v\<rparr>) =
     (fst (send_number (s\<lparr>num_var := v'\<rparr>)), (snd (send_number (s\<lparr>num_var := v'\<rparr>)))\<lparr>num_var := v\<rparr>)"
proof -
  let ?raw = "if filter isdigit v = [] then ''0'' else filter isdigit v"
  have a: "send_number (s\<lparr>num_var := x\<rparr>) =
     (case py_int (if filter isdigit x = [] then ''0'' else filter isdigit x) of
        None \<Rightarrow> (Inl ValueError, s\<lparr>num_var := x\<rparr>)
      | Some n \<Rightarrow>
          if n < 0 \<or> n > 999 then
            (Inr False, (emit (ShowWarning ''Bad number'' ''0..999 allowed'') s)\<lparr>num_var := x\<rparr>)
          else
            (let (ok, s1) = send_payload (build_number n) s
             in if \<not> ok then (Inr False, s1\<lparr>num_var := x\<rparr>)
                else
                  (let s2 = emit (Sleep 80) s1;
                       (ok2, s3) = send_payload (replicate 11 CHR '' '') s2;
                       s4 = emit (Sleep 80) s3;
                       (ok3, s5) = send_payload (replicate 15 CHR '' '') s4
                   in (Inr True, s5\<lparr>num_var := x\<rparr>))))" for x
    by (simp add: send_number_def Let_def send_payload_num_var emit_num_var
        split: option.splits prod.splits)
  show ?thesis
    unfolding a [of v] a [of v'] assms
    by (simp add: Let_def split: option.splits prod.splits)
qed

text \<open>
  C5 (amended). For a field whose digit characters are all among 0 to 9. Time mode: a
  field that, once the white space around it is stripped, is not one to three decimal
  digits, alone or followed by a dot and at most two decimal digits, is refused: the send
  returns False after a warning box, nothing is written and no field or log changes.
  Start-number mode: a number of more than three digits, leading zeros aside (and of at
  most 4300 digits in all), is refused in the same way; characters that are not digits
  are dropped before the number is read, so the send does the same with and without
  them, and a field with no digit is sent as the number 0.
\<close>

theorem C5_rejected_input:
  "(list_all is_ascii_digit (filter isdigit (time_var s))
    \<and> \<not> (let t = strip (time_var s);
              l = takeWhile is_ascii_digit t;
              r = dropWhile is_ascii_digit t
          in 1 \<le> length l \<and> length l \<le> 3 \<and>
             (r = [] \<or> (hd r = CHR ''.'' \<and> length (tl r) \<le> 2 \<and> list_all is_ascii_digit (tl r))))
    \<longrightarrow> fst (send_time s) = Inr False
       \<and> (snd (send_time s) =
               s\<lparr>trace := trace s @ [ShowWarning ''Bad format'' ''Use SSS.DD, e.g. 6.23, 33 or 123.4'']\<rparr>
          \<or> snd (send_time s) =
               s\<lparr>trace := trace s @ [ShowWarning ''Bad format'' ''Fraction part max 2 digits'']\<rparr>))
   \<and> (list_all is_ascii_digit (filter isdigit (num_var s))
      \<and> length (filter isdigit (num_var s)) \<le> 4300
      \<and> 3 < length (dropWhile (\<lambda>c. c = CHR ''0'') (filter isdigit (num_var s)))
    \<longrightarrow> send_number s =
          (Inr False, s\<lparr>trace := trace s @ [ShowWarning ''Bad number'' ''0..999 allowed'']\<rparr>))
   \<and> fst (send_number (s\<lparr>num_var := v\<rparr>)) = fst (send_number (s\<lparr>num_var := filter isdigit v\<rparr>))
   \<and> trace (snd (send_number (s\<lparr>num_var := v\<rparr>))) =
       trace (snd (send_number (s\<lparr>num_var := filter isdigit v\<rparr>)))
   \<and> (filter isdigit v = []
    \<longrightarrow> fst (send_number (s\<lparr>num_var := v\<rparr>)) = fst (send_number (s\<lparr>num_var := ''0''\<rparr>))
       \<and> trace (snd (send_number (s\<lparr>num_var := v\<rparr>))) =
           trace (snd (send_number (s\<lparr>num_var := ''0''\<rparr>))))"
proof -
  let ?ds = "filter isdigit (num_var s)"
  have n: "send_number s =
          (Inr False, s\<lparr>trace := trace s @ [ShowWarning ''Bad number'' ''0..999 allowed'']\<rparr>)"
    if dl: "list_all is_ascii_digit ?ds" and le: "length ?ds \<le> 4300"
      and long: "3 < length (dropWhile (\<lambda>c. c = CHR ''0'') ?ds)"
  proof -
    have ne: "?ds \<noteq> []" using long by auto
    have "py_int ?ds = Some (foldl (\<lambda>acc c. 10 * acc + digit_val c) 0 ?ds)"
      using dl ne le by (rule py_int_Some)
    moreover have "999 < foldl (\<lambda>acc c. 10 * acc + digit_val c) 0 ?ds"
      using dl long by (rule long_number_value)
    ultimately show ?thesis using ne by (simp add: send_number_def emit_def Let_def)
  qed
  have d: "send_number (s\<lparr>num_var := v\<rparr>) =
     (fst (send_number (s\<lparr>num_var := filter isdigit v\<rparr>)),
      (snd (send_number (s\<lparr>num_var := filter isdigit v\<rparr>)))\<lparr>num_var := v\<rparr>)"
    by (rule send_number_same_raw) simp
  have d1: "fst (send_number (s\<lparr>num_var := v\<rparr>)) = fst (send_number (s\<lparr>num_var := filter isdigit v\<rparr>))"
    by (subst d) simp
  have d2: "trace (snd (send_number (s\<lparr>num_var := v\<rparr>))) =
       trace (snd (send_number (s\<lparr>num_var := filter isdigit v\<rparr>)))"
    by (subst d) simp
  have z: "fst (send_number (s\<lparr>num_var := v\<rparr>)) = fst (send_number (s\<lparr>num_var := ''0''\<rparr>))
       \<and> trace (snd (send_number (s\<lparr>num_var := v\<rparr>))) =
           trace (snd (send_number (s\<lparr>num_var := ''0''\<rparr>)))" if e: "filter isdigit v = []"
  proof -
    have i0: "filter isdigit ''0'' = ''0''" by (simp add: isdigit_def is_ascii_digit_def)
    have "send_number (s\<lparr>num_var := v\<rparr>) =
     (fst (send_number (s\<lparr>num_var := ''0''\<rparr>)),
      (snd (send_number (s\<lparr>num_var := ''0''\<rparr>)))\<lparr>num_var := v\<rparr>)"
      by (rule send_number_same_raw) (simp only: e i0 if_True, simp)
    then show ?thesis by simp
  qed
  show ?thesis using send_time_refuses [of s] n d1 d2 z by blast
qed

theorem C5_rejected_input_witness:
  "fst (send_time \<lparr>ser_open = True, num_var = ''1000'', time_var = ''6.234'', log = [],
          writes = 0, write_fails = (\<lambda>k. False), trace = []\<rparr>) = Inr False
   \<and> send_number \<lparr>ser_open = True, num_var = ''1000'', time_var = ''6.234'', log = [],
          writes = 0, write_fails = (\<lambda>k. False), trace = []\<rparr> =
       (Inr False,
        \<lparr>ser_open = True, num_var = ''1000'', time_var = ''6.234'', log = [],
           writes = 0, write_fails = (\<lambda>k. False),
           trace = [ShowWarning ''Bad number'' ''0..999 allowed'']\<rparr>)
   \<and> fst (send_number (\<lparr>ser_open = True, num_var = ''1000'', time_var = ''6.234'', log = [],
          writes = 0, write_fails = (\<lambda>k. False), trace = []\<rparr>\<lparr>num_var := ''ab''\<rparr>)) =
     fst (send_number (\<lparr>ser_open = True, num_var = ''1000'', time_var = ''6.234'', log = [],
          writes = 0, write_fails = (\<lambda>k. False), trace = []\<rparr>\<lparr>num_var := ''0''\<rparr>))"
proof -
  let ?s = "\<lparr>ser_open = True, num_var = ''1000'', time_var = ''6.234'', log = [],
          writes = 0, write_fails = (\<lambda>k. False), trace = []\<rparr>"
  have st: "strip ''6.234'' = ''6.234''" by (simp add: strip_def isspace_def)
  have t1: "list_all is_ascii_digit (filter isdigit (time_var ?s))"
    by (simp add: isdigit_def is_ascii_digit_def)
  have t2: "\<not> (let t = strip (time_var ?s);
                  l = takeWhile is_ascii_digit t;
                  r = dropWhile is_ascii_digit t
              in 1 \<le> length l \<and> length l \<le> 3 \<and>
                 (r = [] \<or> (hd r = CHR ''.'' \<and> length (tl r) \<le> 2 \<and>
                             list_all is_ascii_digit (tl r))))"
    by (simp add: st is_ascii_digit_def)
  have f: "filter isdigit (num_var ?s) = ''1000''" by (simp add: isdigit_def is_ascii_digit_def)
  have n1: "list_all is_ascii_digit (filter isdigit (num_var ?s))"
    unfolding f by (simp add: is_ascii_digit_def)
  have n2: "length (filter isdigit (num_var ?s)) \<le> 4300" unfolding f by simp
  have n3: "3 < length (dropWhile (\<lambda>c. c = CHR ''0'') (filter isdigit (num_var ?s)))"
    unfolding f by simp
  have v: "filter isdigit ''ab'' = []" by (simp add: isdigit_def is_ascii_digit_def)
  note th = C5_rejected_input [of ?s "''ab''"]
  have a: "fst (send_time ?s) = Inr False" using th t1 t2 by blast
  have b: "send_number ?s =
       (Inr False, ?s\<lparr>trace := trace ?s @ [ShowWarning ''Bad number'' ''0..999 allowed'']\<rparr>)"
    using th n1 n2 n3 by blast
  have c: "fst (send_number (?s\<lparr>num_var := ''ab''\<rparr>)) = fst (send_number (?s\<lparr>num_var := ''0''\<rparr>))"
    using th v by blast
  have b': "?s\<lparr>trace := trace ?s @ [ShowWarning ''Bad number'' ''0..999 allowed'']\<rparr> =
      \<lparr>ser_open = True, num_var = ''1000'', time_var = ''6.234'', log = [],
           writes = 0, write_fails = (\<lambda>k. False),
           trace = [ShowWarning ''Bad number'' ''0..999 allowed'']\<rparr>" by simp
  show ?thesis using a b [unfolded b'] c by (intro conjI)
qed

text \<open>
  A letter in the number field and a blank before the time are not rejected: the frames
  for 1 and for 6.20 are written.
\<close>

theorem C5_nondigit_counterexample:
  "trace (snd (send_number \<lparr>ser_open = True, num_var = ''1a'', time_var = '' 6.2'', log = [],
          writes = 0, write_fails = (\<lambda>k. False), trace = []\<rparr>)) =
     [Write (''A001        '' @ [CHR 0x0D]), Sleep 80,
      Write (''           '' @ [CHR 0x0D]), Sleep 80,
      Write (''               '' @ [CHR 0x0D])]
   \<and> trace (snd (send_time \<lparr>ser_open = True, num_var = ''1a'', time_var = '' 6.2'', log = [],
          writes = 0, write_fails = (\<lambda>k. False), trace = []\<rparr>)) =
     [Write (''  0   .        6.20 00'' @ [CHR 0x0D])]"
proof -
  have p: "py_int ''1'' = Some 1" "py_int ''6'' = Some 6" "py_int ''2'' = Some 2"
    by (simp_all add: py_int_def is_ascii_digit_def digit_val_def)
  have b: "build_number 1 = ''A001        ''"
    by (simp add: build_number_digits digit_char_eval)
  have st: "strip '' 6.2'' = ''6.2''" by (simp add: strip_def isspace_def)
  have sd: "split_dot ''6.2'' = (''6'', Some ''2'')" by (simp add: split_dot_def)
  have id: "str_isdigit ''6''" "str_isdigit ''2''"
    by (simp_all add: str_isdigit_def isdigit_def is_ascii_digit_def)
  have bt: "build_time_head 6 20 = ''  0   .        6.20 00''"
    by (simp add: build_time_head_def py_str_def dec_small fmt_0d_2 digit_char_eval)
  have n: "trace (snd (send_number \<lparr>ser_open = True, num_var = ''1a'', time_var = '' 6.2'', log = [],
          writes = 0, write_fails = (\<lambda>k. False), trace = []\<rparr>)) =
     [Write (''A001        '' @ [CHR 0x0D]), Sleep 80,
      Write (''           '' @ [CHR 0x0D]), Sleep 80,
      Write (''               '' @ [CHR 0x0D])]"
    by (simp add: send_number_def isdigit_def is_ascii_digit_def p b send_payload_def emit_def
        is_ascii_def replicate_11 replicate_15)
  have t: "trace (snd (send_time \<lparr>ser_open = True, num_var = ''1a'', time_var = '' 6.2'', log = [],
          writes = 0, write_fails = (\<lambda>k. False), trace = []\<rparr>)) =
     [Write (''  0   .        6.20 00'' @ [CHR 0x0D])]"
    by (simp add: send_time_def st sd id p send_time_checked_def bt send_payload_def emit_def
        is_ascii_def)
  show ?thesis using n t by simp
qed

subsection \<open>Glyph mapping\<close>

lemma LETTER_MAP_dom: "m \<in> dom LETTER_MAP \<longleftrightarrow> m \<in> set ''ACEFGHIJLPSUbdo0123456789-_ ''"
  by (simp add: LETTER_MAP_def dom_map_of_conv_image_fst)

lemma not_upper_glyphs:
  assumes "c \<in> set ''bdo0123456789-_ ''"
  shows "\<not> is_ascii_upper c"
  using assms by (auto simp add: is_ascii_upper_def)

lemma LETTER_MAP_dom_split:
  "m \<in> dom LETTER_MAP \<longleftrightarrow> m \<in> set ''ACEFGHIJLPSU'' \<or> m \<in> set ''bdo0123456789-_ ''"
  by (simp add: LETTER_MAP_dom)

lemma upper_glyphs:
  assumes "c \<in> set ''ACEFGHIJLPSU''"
  shows "is_ascii_upper c"
  using assms by (auto simp add: is_ascii_upper_def)

lemma upper_glyph:
  assumes "is_ascii_upper u"
  shows "u \<noteq> CHR ''-''" "u \<in> dom LETTER_MAP \<longleftrightarrow> u \<in> set ''ACEFGHIJLPSU''"
proof -
  show "u \<noteq> CHR ''-''" using assms by (auto simp add: is_ascii_upper_def)
  show "u \<in> dom LETTER_MAP \<longleftrightarrow> u \<in> set ''ACEFGHIJLPSU''"
    using assms not_upper_glyphs [of u] unfolding LETTER_MAP_dom_split by blast
qed

lemma lower_glyphs:
  assumes "c \<in> set ''bdo0123456789-_ ''" "\<not> is_ascii_lower c"
  shows "c \<in> set ''0123456789-_ ''"
proof -
  have "c \<noteq> CHR ''b''" "c \<noteq> CHR ''d''" "c \<noteq> CHR ''o''"
    using assms(2) by (auto simp add: is_ascii_lower_def)
  then show ?thesis using assms(1) by simp
qed

lemma upper_of_alpha:
  assumes "isalpha c"
  shows "is_ascii_upper (upper c)" "isalpha (upper c)" "upper (upper c) = upper c"
proof -
  show u: "is_ascii_upper (upper c)"
  proof (cases "is_ascii_lower c")
    case True
    then have "(of_char c :: nat) - 32 < 256" unfolding is_ascii_lower_def by linarith
    then have "(of_char (upper c) :: nat) = of_char c - 32"
      using True by (simp add: upper_def)
    then show ?thesis using True unfolding is_ascii_upper_def is_ascii_lower_def by arith
  next
    case False
    then show ?thesis using assms by (simp add: upper_def isalpha_def)
  qed
  then show "isalpha (upper c)" by (simp add: isalpha_def)
  have "\<not> is_ascii_lower (upper c)"
    using u unfolding is_ascii_upper_def is_ascii_lower_def by arith
  then show "upper (upper c) = upper c" by (simp add: upper_def [of "upper c"])
qed

lemma map_input_char_alpha:
  assumes "isalpha c"
  shows "map_input_char [c] w =
     (if upper c = CHR ''B'' then Some CHR ''b''
      else if upper c = CHR ''D'' then Some CHR ''d''
      else if upper c = CHR ''O'' then Some CHR ''o''
      else if upper c \<in> set ''ACEFGHIJLPSU'' then Some (upper c) else None)"
proof -
  note u = upper_glyph [OF upper_of_alpha(1) [OF assms]]
  have l: "CHR ''b'' \<in> dom LETTER_MAP" "CHR ''d'' \<in> dom LETTER_MAP"
    "CHR ''o'' \<in> dom LETTER_MAP"
    by (simp_all add: LETTER_MAP_dom)
  show ?thesis
  proof (cases "upper c = CHR ''B'' \<or> upper c = CHR ''D'' \<or> upper c = CHR ''O''")
    case True
    then show ?thesis using assms l by (auto simp add: map_input_char_def)
  next
    case False
    then have "map_input_char [c] w = (if upper c \<in> dom LETTER_MAP then Some (upper c) else None)"
      using assms u(1) by (simp add: map_input_char_def)
    then show ?thesis using False unfolding u(2) by simp
  qed
qed

lemma map_input_char_other:
  assumes "\<not> isalpha c"
  shows "map_input_char [c] w =
     (if c = CHR ''-'' \<and> w = Some 0 then None
      else if c \<in> set ''0123456789-_ '' then Some c else None)"
proof -
  have nl: "\<not> is_ascii_lower c" and nu: "\<not> is_ascii_upper c"
    using assms by (simp_all add: isalpha_def)
  have "c \<in> dom LETTER_MAP \<longleftrightarrow> c \<in> set ''0123456789-_ ''"
  proof
    assume "c \<in> dom LETTER_MAP"
    then have "c \<in> set ''ACEFGHIJLPSU'' \<or> c \<in> set ''bdo0123456789-_ ''"
      by (simp only: LETTER_MAP_dom_split)
    then show "c \<in> set ''0123456789-_ ''"
      using upper_glyphs [of c] nu lower_glyphs [of c] nl by blast
  next
    assume "c \<in> set ''0123456789-_ ''"
    then have "c \<in> set ''bdo0123456789-_ ''" by simp
    then show "c \<in> dom LETTER_MAP" unfolding LETTER_MAP_dom_split by (rule disjI2)
  qed
  then have "map_input_char [c] w =
     (if c = CHR ''-'' \<and> w = Some 0 then None
      else if c \<in> set ''0123456789-_ '' then Some c else None)"
    using assms by (simp only: map_input_char_def list.case Let_def if_False)
  then show ?thesis .
qed





subsection \<open>Typing into a full entry\<close>

lemma var_get_var_set:
  assumes "i < 5" "j < 5"
  shows "var_get j (var_set i v s) = (if j = i then v else var_get j s)"
proof -
  consider "i = 0" | "i = 1" | "i = 2" | "i = 3" | "i = 4" using assms(1) by linarith
  then show ?thesis
  proof cases
    case 1 then show ?thesis by (simp add: var_get_def var_set_def)
  next
    case 2 then show ?thesis by (simp add: var_get_def var_set_def)
  next
    case 3 then show ?thesis by (simp add: var_get_def var_set_def)
  next
    case 4 then show ?thesis by (simp add: var_get_def var_set_def)
  next
    case 5 then show ?thesis using assms(2) by (simp add: var_get_def var_set_def)
  qed
qed

lemma var_get_focus [simp]: "var_get j (s\<lparr>focus := f\<rparr>) = var_get j s"
  by (simp add: var_get_def)

lemma focus_var_set [simp]: "focus (var_set i v s) = focus s"
  by (simp add: var_set_def)

lemma block_extra_key_route:
  assumes "ev_keysym e \<notin> set allowed_keys" "ev_char e = [c]" "isprintable c"
    "map_input_char [c] (Some (ev_widget e)) = Some g" "\<not> ev_has_sel e"
    "var_get (ev_widget e) s \<noteq> []"
  shows "block_extra_key e s = (Break, False, route_to_next (ev_widget e) [g] s)"
proof -
  have "1 \<le> length (var_get (ev_widget e) s)" using assms(6) by (simp add: Suc_le_eq)
  then show ?thesis using assms(1-5) by (simp add: block_extra_key_def Let_def)
qed

lemma insert_event_routed:
  assumes k: "ev_keysym e \<notin> set allowed_keys" and c: "ev_char e = [c]" "isprintable c"
    and m: "map_input_char [c] (Some (ev_widget e)) = Some g"
    and ns: "\<not> ev_has_sel e"
    and full: "var_get (ev_widget e) s \<noteq> []"
    and w: "ev_widget e < 5" "focus s = ev_widget e"
  shows "ev_widget e < 4 \<Longrightarrow>
           insert_event tk e s =
             (var_set (ev_widget e + 1) [g] s)\<lparr>focus := min (ev_widget e + 2) 4\<rparr>"
    and "ev_widget e = 4 \<Longrightarrow> insert_event tk e s = s"
proof -
  let ?w = "ev_widget e"
  have r: "block_extra_key e s = (Break, False, route_to_next ?w [g] s)"
    using k c m ns full by (rule block_extra_key_route)
  have nb: "ev_keysym e \<noteq> ''BackSpace''" using k by (auto simp add: allowed_keys_def)
  show "insert_event tk e s = (var_set (?w + 1) [g] s)\<lparr>focus := min (?w + 2) 4\<rparr>" if lt: "?w < 4"
  proof -
    let ?s1 = "(var_set (?w + 1) [g] s)\<lparr>focus := ?w + 1\<rparr>"
    have s1: "route_to_next ?w [g] s = ?s1" using lt by (simp add: route_to_next_def)
    have v: "var_get (?w + 1) ?s1 = [g]" using lt by (simp add: var_get_var_set)
    have "insert_event tk e s = key_release (e\<lparr>ev_widget := ?w + 1\<rparr>) ?s1"
      by (simp add: insert_event_def r s1)
    also have "\<dots> = focus_next (?w + 1) ?s1"
      using v c(1) nb by (simp add: key_release_def auto_advance_def smart_backspace_def
          focus_next_def)
    also have "\<dots> = (var_set (?w + 1) [g] s)\<lparr>focus := min (?w + 2) 4\<rparr>"
    proof (cases "?w + 1 < 4")
      case True
      then have "min (?w + 2) 4 = ?w + 2" by simp
      then show ?thesis using True by (simp add: focus_next_def)
    next
      case False
      then have "?w + 1 = 4" "min (?w + 2) 4 = 4" using lt by simp_all
      then show ?thesis by (simp add: focus_next_def)
    qed
    finally show ?thesis .
  qed
  show "insert_event tk e s = s" if l: "?w = 4"
  proof -
    have s1: "route_to_next ?w [g] s = s" using l by (simp add: route_to_next_def)
    have ee: "e\<lparr>ev_widget := focus s\<rparr> = e" using w(2) by simp
    have "insert_event tk e s = key_release e s"
      by (simp add: insert_event_def r s1 ee)
    also have "\<dots> = s"
      using nb l by (simp add: key_release_def auto_advance_def smart_backspace_def
          focus_next_def)
    finally show ?thesis .
  qed
qed

text \<open>
  C8 (the code differs). Entry \<open>b\<close> holds a character and has the focus, nothing is
  selected, and the key \<open>e\<close> is pressed and released. The \<open>KeyPress\<close> handler puts the
  glyph \<open>E\<close> in entry \<open>c\<close>, leaves entry \<open>b\<close> as it was and moves the focus to entry
  \<open>c\<close>, as stated. The release of the same key then runs \<open>_auto_advance\<close> in entry
  \<open>c\<close>, which now holds one character, and the focus ends on entry \<open>d\<close>, one entry
  further than stated.
\<close>

theorem C8_insert_focus_overshoot:
  "block_extra_key \<lparr>ev_keysym = ''e'', ev_char = ''e'', ev_widget = 1, ev_has_sel = False\<rparr>
      \<lparr>var_a = [], var_b = ''A'', var_c = ''1'', var_d = [], var_e = [], focus = 1\<rparr> =
     (Break, False, \<lparr>var_a = [], var_b = ''A'', var_c = ''E'', var_d = [], var_e = [], focus = 2\<rparr>)
   \<and> insert_event tk \<lparr>ev_keysym = ''e'', ev_char = ''e'', ev_widget = 1, ev_has_sel = False\<rparr>
      \<lparr>var_a = [], var_b = ''A'', var_c = ''1'', var_d = [], var_e = [], focus = 1\<rparr> =
     \<lparr>var_a = [], var_b = ''A'', var_c = ''E'', var_d = [], var_e = [], focus = 3\<rparr>"
proof -
  let ?e = "\<lparr>ev_keysym = ''e'', ev_char = ''e'', ev_widget = 1, ev_has_sel = False\<rparr>"
  let ?s = "\<lparr>var_a = [], var_b = ''A'', var_c = ''1'', var_d = [], var_e = [], focus = 1\<rparr>"
  have ak: "ev_keysym ?e \<notin> set allowed_keys" by (simp add: allowed_keys_def)
  have ch: "ev_char ?e = [CHR ''e'']" by simp
  have pr: "isprintable CHR ''e''" by (simp add: isprintable_def)
  have al: "isalpha CHR ''e''" by (simp add: isalpha_def is_ascii_upper_def is_ascii_lower_def)
  have up: "upper CHR ''e'' = CHR ''E''" by (simp add: upper_def is_ascii_lower_def chr_eval)
  have m: "map_input_char [CHR ''e''] (Some (ev_widget ?e)) = Some CHR ''E''"
    using al up by (simp add: map_input_char_alpha)
  have ns: "\<not> ev_has_sel ?e" by simp
  have full: "var_get (ev_widget ?e) ?s \<noteq> []" by (simp add: var_get_def)
  have w: "ev_widget ?e < 5" "focus ?s = ev_widget ?e" "ev_widget ?e < 4" by simp_all
  have p: "block_extra_key ?e ?s =
     (Break, False, \<lparr>var_a = [], var_b = ''A'', var_c = ''E'', var_d = [], var_e = [], focus = 2\<rparr>)"
    using block_extra_key_route [OF ak ch pr m ns full]
    by (simp add: route_to_next_def var_set_def)
  have i: "insert_event tk ?e ?s =
     \<lparr>var_a = [], var_b = ''A'', var_c = ''E'', var_d = [], var_e = [], focus = 3\<rparr>"
    using insert_event_routed(1) [OF ak ch pr m ns full w(1,2,3), of tk]
    by (simp add: var_set_def)
  show ?thesis using p i by (rule conjI)
qed

subsection \<open>BackSpace\<close>

lemma block_extra_key_backspace:
  "ev_keysym e = ''BackSpace'' \<Longrightarrow> block_extra_key e s = (Default, False, s)"
  by (simp add: block_extra_key_def allowed_keys_def Let_def)

lemma tk_backspace_frame:
  assumes "w < 5"
  shows "focus (tk_backspace w cur s) = focus s"
    "j < 5 \<Longrightarrow> j \<noteq> w \<Longrightarrow> var_get j (tk_backspace w cur s) = var_get j s"
    "var_get w s = [] \<Longrightarrow> tk_backspace w cur s = s"
  using assms by (auto simp add: tk_backspace_def Let_def var_get_var_set)

lemma key_release_vars: "var_get j (key_release e s) = var_get j s"
  by (simp add: key_release_def smart_backspace_def auto_advance_def focus_next_def
      focus_prev_def)

lemma key_release_backspace:
  assumes "ev_keysym e = ''BackSpace''" "ev_widget e = w" "w < 5" "focus s = w"
  shows "var_get w s = [] \<Longrightarrow> key_release e s = s\<lparr>focus := w - 1\<rparr>"
    "var_get w s \<noteq> [] \<Longrightarrow> w \<le> focus (key_release e s)"
proof -
  show "key_release e s = s\<lparr>focus := w - 1\<rparr>" if "var_get w s = []"
  proof (cases "0 < w")
    case True
    then show ?thesis using that assms
      by (simp add: key_release_def smart_backspace_def auto_advance_def focus_prev_def)
  next
    case False
    then have "s\<lparr>focus := w - 1\<rparr> = s" using assms(4) by simp
    then show ?thesis using that assms False
      by (simp add: key_release_def smart_backspace_def auto_advance_def focus_prev_def)
  qed
  show "w \<le> focus (key_release e s)" if "var_get w s \<noteq> []"
    using that assms
    by (simp add: key_release_def smart_backspace_def auto_advance_def focus_next_def)
qed

lemma delete_event_unfold:
  "delete_event w cur ch s =
     key_release \<lparr>ev_keysym = ''BackSpace'', ev_char = ch, ev_widget = w, ev_has_sel = False\<rparr>
       (tk_backspace w cur s)"
  by (simp add: delete_event_def block_extra_key_backspace)

text \<open>
  C9 (amended). BackSpace pressed and released in an entry that has the focus: the focus
  moves to the entry before it (it stays in the first entry) exactly when the entry is
  empty once the key is released, whether it was empty before or has just been emptied;
  otherwise the focus does not move back. BackSpace in an entry that is already empty
  changes the focus and no entry's content, and no other entry's content ever changes.
\<close>

theorem C9_delete_focus:
  assumes "w < 5" and "focus s = w"
  shows "(var_get w (delete_event w cur ch s) = [] \<longrightarrow>
            focus (delete_event w cur ch s) = w - 1)
       \<and> (var_get w (delete_event w cur ch s) \<noteq> [] \<longrightarrow>
            w \<le> focus (delete_event w cur ch s))
       \<and> (var_get w s = [] \<longrightarrow> delete_event w cur ch s = s\<lparr>focus := w - 1\<rparr>)
       \<and> (j < 5 \<and> j \<noteq> w \<longrightarrow> var_get j (delete_event w cur ch s) = var_get j s)"
proof -
  let ?e = "\<lparr>ev_keysym = ''BackSpace'', ev_char = ch, ev_widget = w, ev_has_sel = False\<rparr>"
  let ?s2 = "tk_backspace w cur s"
  have f2: "focus ?s2 = w" using assms by (simp add: tk_backspace_frame)
  have e: "ev_keysym ?e = ''BackSpace''" "ev_widget ?e = w" by simp_all
  note kr = key_release_backspace [OF e assms(1) f2]
  have v: "var_get w (delete_event w cur ch s) = var_get w ?s2"
    by (simp add: delete_event_unfold key_release_vars)
  have a: "focus (delete_event w cur ch s) = w - 1" if "var_get w (delete_event w cur ch s) = []"
    using that kr(1) v by (simp add: delete_event_unfold)
  have b: "w \<le> focus (delete_event w cur ch s)" if "var_get w (delete_event w cur ch s) \<noteq> []"
    using that kr(2) v by (simp add: delete_event_unfold)
  have c: "delete_event w cur ch s = s\<lparr>focus := w - 1\<rparr>" if "var_get w s = []"
    using that kr(1) tk_backspace_frame(3) [OF assms(1) that] by (simp add: delete_event_unfold)
  have d: "var_get j (delete_event w cur ch s) = var_get j s" if "j < 5" "j \<noteq> w"
    using that assms(1) by (simp add: delete_event_unfold key_release_vars tk_backspace_frame)
  show ?thesis using a b c d by blast
qed

theorem C9_delete_focus_witness:
  "delete_event 2 0 [CHR 0x08]
      \<lparr>var_a = ''A'', var_b = ''b'', var_c = [], var_d = [], var_e = [], focus = 2\<rparr> =
     \<lparr>var_a = ''A'', var_b = ''b'', var_c = [], var_d = [], var_e = [], focus = 1\<rparr>"
proof -
  let ?s = "\<lparr>var_a = ''A'', var_b = ''b'', var_c = [], var_d = [], var_e = [], focus = 2\<rparr>"
  have h1: "(2::nat) < 5" by simp
  have h2: "focus ?s = 2" by simp
  have v: "var_get 2 ?s = []" by (simp add: var_get_def)
  show ?thesis
    using C9_delete_focus [OF h1 h2, of 0 "[CHR 0x08]" 0] v by simp
qed

text \<open>
  Entry \<open>b\<close> holds one character with the cursor behind it: BackSpace empties the entry
  and the focus moves to entry \<open>a\<close>, though the entry was not empty before.
\<close>

theorem C9_emptied_slot_counterexample:
  "var_get 1 \<lparr>var_a = ''A'', var_b = ''b'', var_c = [], var_d = [], var_e = [], focus = 1\<rparr> \<noteq> []
   \<and> delete_event 1 1 [CHR 0x08]
        \<lparr>var_a = ''A'', var_b = ''b'', var_c = [], var_d = [], var_e = [], focus = 1\<rparr> =
       \<lparr>var_a = ''A'', var_b = [], var_c = [], var_d = [], var_e = [], focus = 0\<rparr>"
proof -
  have al: "isalpha CHR ''b''" by (simp add: isalpha_def is_ascii_upper_def is_ascii_lower_def)
  have up: "upper CHR ''b'' = CHR ''B''" by (simp add: upper_def is_ascii_lower_def chr_eval)
  have m: "map_input_char ''b'' (Some 1) = Some CHR ''b''"
    using al up by (simp add: map_input_char_alpha)
  have v: "validate_char [] ''b'' 1" using m by (simp add: validate_char_def)
  have t: "tk_backspace 1 1
        \<lparr>var_a = ''A'', var_b = ''b'', var_c = [], var_d = [], var_e = [], focus = 1\<rparr> =
       \<lparr>var_a = ''A'', var_b = [], var_c = [], var_d = [], var_e = [], focus = 1\<rparr>"
    using v by (simp add: tk_backspace_def var_get_def var_set_def)
  have k: "key_release
        \<lparr>ev_keysym = ''BackSpace'', ev_char = [CHR 0x08], ev_widget = 1, ev_has_sel = False\<rparr>
        \<lparr>var_a = ''A'', var_b = [], var_c = [], var_d = [], var_e = [], focus = 1\<rparr> =
       \<lparr>var_a = ''A'', var_b = [], var_c = [], var_d = [], var_e = [], focus = 0\<rparr>"
    by (simp add: key_release_def smart_backspace_def auto_advance_def focus_prev_def var_get_def)
  have d: "delete_event 1 1 [CHR 0x08]
        \<lparr>var_a = ''A'', var_b = ''b'', var_c = [], var_d = [], var_e = [], focus = 1\<rparr> =
       \<lparr>var_a = ''A'', var_b = [], var_c = [], var_d = [], var_e = [], focus = 0\<rparr>"
    by (simp only: delete_event_unfold t k)
  have n: "var_get 1 \<lparr>var_a = ''A'', var_b = ''b'', var_c = [], var_d = [], var_e = [], focus = 1\<rparr> \<noteq> []"
    by (simp add: var_get_def)
  show ?thesis using n d by (rule conjI)
qed

subsection \<open>Paste\<close>

text \<open>
  C6 (the code differs). The clipboard \<open>AB-12\<close> pasted into the empty entry \<open>a\<close>: the dash
  would land in entry \<open>c\<close>, where a dash is allowed, yet it is skipped, because every
  character is mapped against the entry the paste started in and not against the entry
  it is about to fill. The entries end as \<open>A, b, 1, 2\<close> and an empty entry \<open>e\<close>. Pasted
  into entry \<open>b\<close> the same text keeps its dash.
\<close>

theorem C6_paste_dash_skipped:
  "on_paste ''AB-12'' 0 \<lparr>var_a = [], var_b = [], var_c = [], var_d = [], var_e = [], focus = 0\<rparr> =
     Inr \<lparr>var_a = ''A'', var_b = ''b'', var_c = ''1'', var_d = ''2'', var_e = [], focus = 3\<rparr>
   \<and> on_paste ''AB-12'' 1 \<lparr>var_a = [], var_b = [], var_c = [], var_d = [], var_e = [], focus = 1\<rparr> =
     Inr \<lparr>var_a = [], var_b = ''A'', var_c = ''b'', var_d = ''-'', var_e = ''1'', focus = 4\<rparr>"
proof -
  have al: "isalpha CHR ''A''" "isalpha CHR ''B''" "\<not> isalpha CHR ''-''" "\<not> isalpha CHR ''1''"
    "\<not> isalpha CHR ''2''"
    by (simp_all add: isalpha_def is_ascii_upper_def is_ascii_lower_def)
  have up: "upper CHR ''A'' = CHR ''A''" "upper CHR ''B'' = CHR ''B''"
    by (simp_all add: upper_def is_ascii_lower_def)
  have m: "map_input_char ''A'' (Some w) = Some CHR ''A''"
    "map_input_char ''B'' (Some w) = Some CHR ''b''"
    "map_input_char ''-'' (Some w) = (if w = 0 then None else Some CHR ''-'')"
    "map_input_char ''1'' (Some w) = Some CHR ''1''"
    "map_input_char ''2'' (Some w) = Some CHR ''2''" for w
    using al up by (simp_all add: map_input_char_alpha map_input_char_other)
  have a: "on_paste ''AB-12'' 0
       \<lparr>var_a = [], var_b = [], var_c = [], var_d = [], var_e = [], focus = 0\<rparr> =
     Inr \<lparr>var_a = ''A'', var_b = ''b'', var_c = ''1'', var_d = ''2'', var_e = [], focus = 3\<rparr>"
    by (simp add: on_paste_def m var_set_def)
  have b: "on_paste ''AB-12'' 1
       \<lparr>var_a = [], var_b = [], var_c = [], var_d = [], var_e = [], focus = 1\<rparr> =
     Inr \<lparr>var_a = [], var_b = ''A'', var_c = ''b'', var_d = ''-'', var_e = ''1'', focus = 4\<rparr>"
    by (simp add: on_paste_def m var_set_def)
  show ?thesis using a b by (rule conjI)
qed

subsection \<open>Sniffer line\<close>

text \<open>
  C10 (the code differs). The ASCII view of the byte 0x01 is the control character
  itself, and the one of the byte 0x80 is U+FFFD, not a dot: the decoding with
  \<open>errors='replace'\<close> never raises, so the branch that writes dots never runs. The hex
  view and the markers for CR and LF are as stated.
\<close>

theorem C10_ascii_view_no_dot:
  "render False True [0x01] = Some (ustr ''ASCII: '' @ [34, 1, 34])
   \<and> render False True [0x80] = Some (ustr ''ASCII: '' @ [34, 0xFFFD, 34])
   \<and> render True True [0x41, 0x0D, 0x0A] =
       Some (ustr ''HEX: 41 0D 0A  ASCII: '' @ [34] @ ustr ''A<CR><LF>'' @ [34])
   \<and> dotted [0x01, 0x80] = ustr ''..''"
proof -
  have a: "render False True [0x01] = Some (ustr ''ASCII: '' @ [34, 1, 34])"
    by (simp add: render_def ascii_view_def decode_ascii_replace_def replace_char_def ustr_def)
  have b: "render False True [0x80] = Some (ustr ''ASCII: '' @ [34, 0xFFFD, 34])"
    by (simp add: render_def ascii_view_def decode_ascii_replace_def replace_char_def ustr_def)
  have c: "render True True [0x41, 0x0D, 0x0A] =
       Some (ustr ''HEX: 41 0D 0A  ASCII: '' @ [34] @ ustr ''A<CR><LF>'' @ [34])"
    by (simp add: render_def ascii_view_def hex_view_def decode_ascii_replace_def replace_char_def
        ustr_def fmt_02X_def hex_digit_def chr_eval)
  have d: "dotted [0x01, 0x80] = ustr ''..''"
    by (simp add: dotted_def ustr_def)
  show ?thesis using a b c d by simp
qed

end
